theory Spec2Isabelle
  imports Main "HOL-Library.Word" "HOL-Library.Monad_Syntax" "HOL-Library.Sublist"
begin

unbundle bit_operations_syntax

section \<open>Data model\<close>

text \<open>
  The table buffer is a list of bytes; a pointer into it is an offset. A function that
  dereferences a pointer without a bound check of its own returns an option: \<open>None\<close>
  stands for a read outside the buffer, where the C program has no defined result.
\<close>

type_synonym u8 = "8 word"
type_synonym u16 = "16 word"
type_synonym u32 = "32 word"

text \<open>\<open>struct dmi_header\<close>: the field \<open>data\<close> points at the first byte of the record.\<close>

record dmi_header =
  type_h :: u8
  length_h :: u8
  handle_h :: u16
  data_h :: nat

text \<open>A read through a pointer: \<open>None\<close> outside the buffer.\<close>

definition rd :: "u8 list \<Rightarrow> nat \<Rightarrow> u8 option" where
  "rd buf p = (if p < length buf then Some (buf ! p) else None)"

text \<open>The bytes of a C string as characters.\<close>

definition chr_of :: "u8 \<Rightarrow> char" where
  "chr_of b = char_of (unat b)"

section \<open>String table accessor\<close>

text \<open>\<open>strlen(bp)\<close>: the distance to the next zero byte; \<open>None\<close> if the buffer has none.\<close>

fun strlen_from :: "u8 list \<Rightarrow> nat option" where
  "strlen_from [] = None"
| "strlen_from (b # bs) = (if b = 0 then Some 0 else map_option Suc (strlen_from bs))"

definition strlen_c :: "u8 list \<Rightarrow> nat \<Rightarrow> nat option" where
  "strlen_c buf bp = strlen_from (drop bp buf)"

text \<open>The C string at \<open>bp\<close> (used after \<open>strlen_c\<close> has found its end).\<close>

definition c_str :: "u8 list \<Rightarrow> nat \<Rightarrow> string" where
  "c_str buf bp = map chr_of (takeWhile (\<lambda>b. b \<noteq> 0) (drop bp buf))"

text \<open>\<open>ascii_filter\<close>: every byte below 32 or from 127 on becomes a dot, in place.\<close>

definition filter_byte :: "u8 \<Rightarrow> u8" where
  "filter_byte b = (if b < 32 \<or> b \<ge> 127 then 0x2E else b)"

definition ascii_filter :: "u8 list \<Rightarrow> nat \<Rightarrow> nat \<Rightarrow> u8 list" where
  "ascii_filter buf bp n =
     take bp buf @ map filter_byte (take n (drop bp buf)) @ drop (bp + n) buf"

text \<open>
  The loop of \<open>_dmi_string\<close>:
  \<^verbatim>\<open>while (s > 1 && *bp) { bp += strlen(bp); bp++; s--; }\<close>
  followed by the read of \<open>*bp\<close> that every path does next.
\<close>

function dmi_string_skip :: "u8 list \<Rightarrow> nat \<Rightarrow> u8 \<Rightarrow> nat option" where
  "dmi_string_skip buf bp s =
     (if 1 < s then
        (case rd buf bp of
           None \<Rightarrow> None
         | Some b \<Rightarrow>
             if b \<noteq> 0 then
               (case strlen_c buf bp of
                  None \<Rightarrow> None
                | Some n \<Rightarrow> dmi_string_skip buf (bp + n + 1) (s - 1))
             else Some bp)
      else Some bp)"
  by pat_completeness auto
termination
proof (relation "measure (\<lambda>(buf, bp, s). unat s)")
  show "wf (measure (\<lambda>(buf, bp, s). unat s))" by simp
next
  fix buf :: "u8 list" and bp :: nat and s :: u8 and b :: u8 and n :: nat
  assume "1 < s"
  then have "s \<noteq> 0" by auto
  then have "unat (s - 1) = unat s - 1" by (rule unat_minus_one)
  with \<open>1 < s\<close> have "unat (s - 1) < unat s" by (simp add: word_less_nat_alt)
  then show "((buf, bp + n + 1, s - 1), (buf, bp, s)) \<in> measure (\<lambda>(buf, bp, s). unat s)"
    by simp
qed

declare dmi_string_skip.simps [simp del]

text \<open>
  \<open>_dmi_string\<close> returns the buffer (filtered in place when asked) and the pointer,
  \<open>None\<close> inside for the C \<open>NULL\<close>.
\<close>

definition dmi_string_raw :: "u8 list \<Rightarrow> dmi_header \<Rightarrow> u8 \<Rightarrow> bool \<Rightarrow> (u8 list \<times> nat option) option" where
  "dmi_string_raw buf dm s filt =
     do {
       bp \<leftarrow> dmi_string_skip buf (data_h dm + unat (length_h dm)) s;
       b \<leftarrow> rd buf bp;
       if b = 0 then Some (buf, None)
       else do {
         n \<leftarrow> strlen_c buf bp;
         Some (if filt then ascii_filter buf bp n else buf, Some bp)
       }
     }"

definition bad_index :: string where
  "bad_index = ''<BAD INDEX>''"

definition out_of_spec :: string where
  "out_of_spec = ''<OUT OF SPEC>''"

definition dmi_string :: "u8 list \<Rightarrow> dmi_header \<Rightarrow> u8 \<Rightarrow> (u8 list \<times> string) option" where
  "dmi_string buf dm s =
     (if s = 0 then Some (buf, ''Not Specified'')
      else
        (case dmi_string_raw buf dm s True of
           None \<Rightarrow> None
         | Some (buf', None) \<Rightarrow> Some (buf', bad_index)
         | Some (buf', Some bp) \<Rightarrow> Some (buf', c_str buf' bp)))"

text \<open>
  The trailing string area of a record, as the format describes it: the strings \<open>strs\<close>,
  each non-empty, free of zero bytes and followed by one zero byte, then one more zero byte.
\<close>

definition string_area :: "u8 list \<Rightarrow> dmi_header \<Rightarrow> u8 list list \<Rightarrow> bool" where
  "string_area buf dm strs \<longleftrightarrow>
     data_h dm + unat (length_h dm) \<le> length buf \<and>
     (\<forall>x \<in> set strs. x \<noteq> [] \<and> 0 \<notin> set x) \<and>
     prefix (concat (map (\<lambda>x. x @ [0]) strs) @ [0]) (drop (data_h dm + unat (length_h dm)) buf)"


section \<open>Options and output\<close>

text \<open>
  Modelled from the spec: \<open>struct opt\<close> and the option flags are declared in dmiopt.h,
  which is not among the sources; the spec names the modes they select (type filter,
  handle filter, quiet mode, raw dump, single-string extraction). Every flag is one bit of
  \<open>opt.flags\<close>; the theorems use the bits only through the tests the code makes.
\<close>

record string_keyword =
  keyword_k :: string
  type_k :: u8
  offset_k :: u8

record opt =
  dumpfile_o :: string
  flags_o :: u32
  type_o :: "(u8 \<Rightarrow> u8) option"
  string_o :: "string_keyword option"
  handle_o :: u32

definition FLAG_VERSION :: u32 where "FLAG_VERSION = push_bit 0 1"
definition FLAG_HELP :: u32 where "FLAG_HELP = push_bit 1 1"
definition FLAG_DUMP :: u32 where "FLAG_DUMP = push_bit 2 1"
definition FLAG_QUIET :: u32 where "FLAG_QUIET = push_bit 3 1"
definition FLAG_DUMP_BIN :: u32 where "FLAG_DUMP_BIN = push_bit 4 1"
definition FLAG_FROM_DUMP :: u32 where "FLAG_FROM_DUMP = push_bit 5 1"
definition FLAG_NO_SYSFS :: u32 where "FLAG_NO_SYSFS = push_bit 6 1"

definition FLAG_STOP_AT_EOT :: u32 where "FLAG_STOP_AT_EOT = push_bit 1 1"

definition quiet :: "opt \<Rightarrow> bool" where
  "quiet opt \<longleftrightarrow> flags_o opt AND FLAG_QUIET \<noteq> 0"

definition dump :: "opt \<Rightarrow> bool" where
  "dump opt \<longleftrightarrow> flags_o opt AND FLAG_DUMP \<noteq> 0"

text \<open>
  What the program writes, as the sequence of its calls to the output functions. A
  call of \<open>printf\<close>, \<open>pr_info\<close> or \<open>pr_comment\<close> is an event named after its call
  site that carries the arguments of its format; \<open>Decoded\<close> holds what one call of a
  record decoder wrote. The string literals of the source are only handed on by these
  calls, and an event holds the characters of the literal.
\<close>

datatype out =
    Pr_handle dmi_header
  | Pr_handle_name string
  | Pr_attr string string
  | Pr_struct_err string
  | Pr_sep
  | Printf_invalid_length nat
  | Printf_fixup_34
  | Printf_wrong_count nat nat
  | Printf_wrong_length nat nat
  | Decoded "out list"
  | Printf_length_too_large nat nat
  | Printf_version_fixup nat nat
  | Printf_no_64bit
  | Pr_info_smbios nat nat
  | Pr_info_smbios3 nat nat nat
  | Pr_comment_writing nat string
  | Call_dmi_table nat u32 u16 u32 u32
  | Call_write_dump nat nat "u8 list"

text \<open>\<open>%u\<close>, \<open>%lu\<close> and \<open>%d\<close> of a value that is not negative.\<close>

function dec :: "nat \<Rightarrow> string" where
  "dec n = (if n < 10 then [''0123456789'' ! n]
            else dec (n div 10) @ [''0123456789'' ! (n mod 10)])"
  by pat_completeness auto
termination
  by (relation "measure id") auto

declare dec.simps [simp del]

text \<open>\<open>%04X\<close> of a 16-bit value.\<close>

definition hex4 :: "nat \<Rightarrow> string" where
  "hex4 n = map (\<lambda>k. ''0123456789ABCDEF'' ! ((n div 16 ^ k) mod 16)) [3, 2, 1, 0]"

section \<open>Little-endian fields\<close>

text \<open>
  Modelled from the spec: the macros \<open>WORD\<close>, \<open>DWORD\<close> and \<open>QWORD\<close> and the type \<open>u64\<close>
  come from types.h, which is not among the sources. SMBIOS stores its fields
  little-endian, and \<open>dmi_print_memory_size\<close> reads a \<open>u64\<close> as the two 32-bit halves
  \<open>l\<close> and \<open>h\<close>.
\<close>

record u64 =
  u64_l :: u32
  u64_h :: u32

definition WORD :: "u8 list \<Rightarrow> nat \<Rightarrow> u16 option" where
  "WORD buf p =
     do { b0 \<leftarrow> rd buf p; b1 \<leftarrow> rd buf (p + 1);
          Some (ucast b0 OR push_bit 8 (ucast b1)) }"

definition DWORD :: "u8 list \<Rightarrow> nat \<Rightarrow> u32 option" where
  "DWORD buf p =
     do { b0 \<leftarrow> rd buf p; b1 \<leftarrow> rd buf (p + 1); b2 \<leftarrow> rd buf (p + 2); b3 \<leftarrow> rd buf (p + 3);
          Some (ucast b0 OR push_bit 8 (ucast b1) OR push_bit 16 (ucast b2)
                OR push_bit 24 (ucast b3)) }"

definition QWORD :: "u8 list \<Rightarrow> nat \<Rightarrow> u64 option" where
  "QWORD buf p =
     do { lo \<leftarrow> DWORD buf p; hi \<leftarrow> DWORD buf (p + 4);
          Some \<lparr>u64_l = lo, u64_h = hi\<rparr> }"

section \<open>Memory size formatting\<close>

definition unit :: "string list" where
  "unit = [''bytes'', ''kB'', ''MB'', ''GB'', ''TB'', ''PB'', ''EB'', ''ZB'']"

text \<open>The seven 10-bit groups \<open>split[0..6]\<close>, each stored in a \<open>u16\<close>.\<close>

definition split :: "u64 \<Rightarrow> u16 list" where
  "split code =
     [ucast (u64_l code AND 0x3FF),
      ucast (drop_bit 10 (u64_l code) AND 0x3FF),
      ucast (drop_bit 20 (u64_l code) AND 0x3FF),
      ucast ((push_bit 2 (u64_h code) AND 0x3FC) OR drop_bit 30 (u64_l code)),
      ucast (drop_bit 8 (u64_h code) AND 0x3FF),
      ucast (drop_bit 18 (u64_h code) AND 0x3FF),
      ucast (drop_bit 28 (u64_h code))]"

text \<open>\<^verbatim>\<open>for (i = 6; i > 0; i--) if (split[i]) break;\<close>\<close>

fun highest :: "u16 list \<Rightarrow> nat \<Rightarrow> nat" where
  "highest sp 0 = 0"
| "highest sp (Suc i) = (if sp ! Suc i \<noteq> 0 then Suc i else highest sp i)"

text \<open>The number and the unit index that \<open>dmi_print_memory_size\<close> hands to \<open>pr_attr\<close>.\<close>

definition memory_size :: "u64 \<Rightarrow> nat \<times> nat" where
  "memory_size code =
     (let sp = split code; i = highest sp 6 in
      if 0 < i \<and> sp ! (i - 1) \<noteq> 0
      then (unat (sp ! (i - 1)) + push_bit 10 (unat (sp ! i)), i - 1)
      else (unat (sp ! i), i))"

definition dmi_print_memory_size :: "string \<Rightarrow> u64 \<Rightarrow> nat \<Rightarrow> out" where
  "dmi_print_memory_size attr code shift =
     (let (capacity, i) = memory_size code
      in Pr_attr attr (dec capacity @ '' '' @ unit ! (i + shift)))"


text \<open>
  The number a \<open>u64\<close> stands for, and its 10-bit group \<open>k\<close> (the digit of weight
  \<open>1024 ^ k\<close>): what the size formatting is measured against.
\<close>

definition val64 :: "u64 \<Rightarrow> nat" where
  "val64 code = unat (u64_l code) + 2 ^ 32 * unat (u64_h code)"

definition group10 :: "u64 \<Rightarrow> nat \<Rightarrow> nat" where
  "group10 code k = (val64 code div 1024 ^ k) mod 1024"


section \<open>Physical Memory Array (type 16)\<close>

definition dmi_memory_array_location :: "u8 \<Rightarrow> string" where
  "dmi_memory_array_location code =
     (if code \<ge> 0x01 \<and> code \<le> 0x0A then
        [''Other'', ''Unknown'', ''System Board Or Motherboard'', ''ISA Add-on Card'',
         ''EISA Add-on Card'', ''PCI Add-on Card'', ''MCA Add-on Card'',
         ''PCMCIA Add-on Card'', ''Proprietary Add-on Card'', ''NuBus''] ! (unat code - 0x01)
      else if code \<ge> 0xA0 \<and> code \<le> 0xA4 then
        [''PC-98/C20 Add-on Card'', ''PC-98/C24 Add-on Card'', ''PC-98/E Add-on Card'',
         ''PC-98/Local Bus Add-on Card'', ''CXL Flexbus 1.0''] ! (unat code - 0xA0)
      else out_of_spec)"

definition dmi_memory_array_use :: "u8 \<Rightarrow> string" where
  "dmi_memory_array_use code =
     (if code \<ge> 0x01 \<and> code \<le> 0x07 then
        [''Other'', ''Unknown'', ''System Memory'', ''Video Memory'', ''Flash Memory'',
         ''Non-volatile RAM'', ''Cache Memory''] ! (unat code - 0x01)
      else out_of_spec)"

definition dmi_memory_array_ec_type :: "u8 \<Rightarrow> string" where
  "dmi_memory_array_ec_type code =
     (if code \<ge> 0x01 \<and> code \<le> 0x07 then
        [''Other'', ''Unknown'', ''None'', ''Parity'', ''Single-bit ECC'', ''Multi-bit ECC'',
         ''CRC''] ! (unat code - 0x01)
      else out_of_spec)"

definition dmi_memory_array_error_handle :: "u16 \<Rightarrow> out" where
  "dmi_memory_array_error_handle code =
     (if code = 0xFFFE then Pr_attr ''Error Information Handle'' ''Not Provided''
      else if code = 0xFFFF then Pr_attr ''Error Information Handle'' ''No Error''
      else Pr_attr ''Error Information Handle'' (''0x'' @ hex4 (unat code)))"

text \<open>
  \<open>case 16\<close> of \<open>dmi_decode\<close>, from \<open>pr_handle_name\<close> to its \<open>break\<close>. The reads
  follow the order of the source; \<open>None\<close> is a read outside the buffer.
\<close>

definition dmi_decode_16 :: "opt \<Rightarrow> u8 list \<Rightarrow> dmi_header \<Rightarrow> out list option" where
  "dmi_decode_16 opt buf h =
     (let data = data_h h in
      if length_h h < 0x0F then Some [Pr_handle_name ''Physical Memory Array'']
      else do {
        d4 \<leftarrow> rd buf (data + 0x04);
        d5 \<leftarrow> rd buf (data + 0x05);
        d6 \<leftarrow> rd buf (data + 0x06);
        cap \<leftarrow> DWORD buf (data + 0x07);
        mc \<leftarrow> (if cap = 0x80000000 then
                 (if length_h h < 0x17 then Some (Pr_attr ''Maximum Capacity'' ''Unknown'')
                  else do {
                    q \<leftarrow> QWORD buf (data + 0x0F);
                    Some (dmi_print_memory_size ''Maximum Capacity'' q 0)
                  })
               else Some (dmi_print_memory_size ''Maximum Capacity''
                            \<lparr>u64_l = cap, u64_h = 0\<rparr> 1));
        eh \<leftarrow> (if \<not> quiet opt then map_option (\<lambda>w. [dmi_memory_array_error_handle w])
                                       (WORD buf (data + 0x0B))
               else Some []);
        nd \<leftarrow> WORD buf (data + 0x0D);
        Some ([Pr_handle_name ''Physical Memory Array'',
               Pr_attr ''Location'' (dmi_memory_array_location d4),
               Pr_attr ''Use'' (dmi_memory_array_use d5),
               Pr_attr ''Error Correction Type'' (dmi_memory_array_ec_type d6),
               mc] @ eh @
              [Pr_attr ''Number Of Devices'' (dec (unat nd))])
      })"

text \<open>
  The bytes of a record that its declared length covers; everything else is replaced
  by the end of the buffer, so that a read beyond the declared length shows as \<open>None\<close>.
\<close>

definition declared_bytes :: "u8 list \<Rightarrow> dmi_header \<Rightarrow> u8 list" where
  "declared_bytes buf h = take (data_h h + unat (length_h h)) buf"

section \<open>String literals\<close>

text \<open>
  Every string literal of the source has the prefix \<open>u\<close>, so it is stored as UTF-16:
  on the little-endian machines the program is built for, each character is followed
  by a zero byte, and two zero bytes end the literal. \<open>u_literal\<close> gives these bytes.
  A function that takes a \<open>char\<close> pointer and looks for the end of the string
  (\<open>strstr\<close>, \<open>strncasecmp\<close>) reads such a literal up to its first zero byte:
  \<open>c_string_at\<close>.
\<close>

definition u_literal :: "string \<Rightarrow> u8 list" where
  "u_literal s = concat (map (\<lambda>c. [of_char c, 0]) s) @ [0, 0]"

definition c_string_at :: "u8 list \<Rightarrow> string" where
  "c_string_at bytes = map chr_of (takeWhile (\<lambda>b. b \<noteq> 0) bytes)"

section \<open>Entry points\<close>

text \<open>
  Modelled from the spec: \<open>checksum\<close> is defined in util.c, which is not among the
  sources. The spec gives it as "sum of bytes mod 256 equals 0"; its first argument
  is the list of bytes from the pointer on.
\<close>

definition checksum :: "u8 list \<Rightarrow> nat \<Rightarrow> bool" where
  "checksum bytes len \<longleftrightarrow> sum_list (map unat (take len bytes)) mod 256 = 0"

text \<open>Guarded reads of the entry point, whose buffer holds 0x20 bytes.\<close>

definition word_at :: "u8 list \<Rightarrow> nat \<Rightarrow> u16" where
  "word_at buf p = ucast (buf ! p) OR push_bit 8 (ucast (buf ! (p + 1)))"

definition dword_at :: "u8 list \<Rightarrow> nat \<Rightarrow> u32" where
  "dword_at buf p =
     ucast (buf ! p) OR push_bit 8 (ucast (buf ! (p + 1))) OR
     push_bit 16 (ucast (buf ! (p + 2))) OR push_bit 24 (ucast (buf ! (p + 3)))"

definition overwrite_dmi_address :: "u8 list \<Rightarrow> nat \<Rightarrow> u8 list" where
  "overwrite_dmi_address buf p =
     buf[p + 0x05 := buf ! (p + 0x05) + (buf ! (p + 0x08) + buf ! (p + 0x09)
                      + buf ! (p + 0x0A) + buf ! (p + 0x0B) - 32),
         p + 0x08 := 32, p + 0x09 := 0, p + 0x0A := 0, p + 0x0B := 0]"


text \<open>
  \<open>smbios_decode\<close>: what it writes and its return value. The call of \<open>dmi_table\<close>,
  which reads the table from the device, is an event with its arguments.
  \<open>smbios_table\<close> is the part of the function after the checks of the entry point.
\<close>

definition smbios_table :: "opt \<Rightarrow> u8 list \<Rightarrow> u32 \<Rightarrow> out list" where
  "smbios_table opt buf flags =
     (let ver0 = push_bit 8 (ucast (buf ! 0x06)) + ucast (buf ! 0x07) :: u16;
          (fix, ver) =
            (if ver0 = 0x021F \<or> ver0 = 0x0221 then
               (if \<not> quiet opt then
                  [Printf_version_fixup (unat (ver0 AND 0xFF)) 3]
                else [], 0x0203)
             else if ver0 = 0x0233 then
               (if \<not> quiet opt then
                  [Printf_version_fixup 51 6]
                else [], 0x0206)
             else ([], ver0));
          info = (if \<not> quiet opt then
                    [Pr_info_smbios (unat (drop_bit 8 ver)) (unat (ver AND 0xFF))]
                  else []);
          table = [Call_dmi_table (unat (dword_at buf 0x18)) (ucast (word_at buf 0x16))
                     (word_at buf 0x1C) (push_bit 8 (ucast ver)) flags];
          dumped =
            (if flags_o opt AND FLAG_DUMP_BIN \<noteq> 0 then
               (let crafted = overwrite_dmi_address (take 32 buf) 0x10 in
                (if \<not> quiet opt then
                   [Pr_comment_writing (unat (crafted ! 0x05)) (dumpfile_o opt)]
                 else []) @
                [Call_write_dump 0 (unat (crafted ! 0x05)) crafted])
             else [])
      in fix @ info @ table @ dumped)"

definition smbios_decode :: "opt \<Rightarrow> u8 list \<Rightarrow> u32 \<Rightarrow> out list \<times> int" where
  "smbios_decode opt buf flags =
     (if buf ! 0x05 > 0x20 then
        ([Printf_length_too_large (unat (buf ! 0x05)) 0x1F], 0)
      else if \<not> checksum buf (unat (buf ! 0x05))
              \<or> take 5 (drop 0x10 buf) \<noteq> take 5 (u_literal ''_DMI_'')
              \<or> \<not> checksum (drop 0x10 buf) 0x0F then ([], 0)
      else (smbios_table opt buf flags, 1))"




section \<open>Processor family\<close>

text \<open>The table \<open>family2\<close> of section 7.5.2, in the order of the source.\<close>

definition family2 :: "(nat \<times> string) list" where
  "family2 =
    [(0x01, ''Other''), (0x02, ''Unknown''), (0x03, ''8086''), (0x04, ''80286''),
     (0x05, ''80386''), (0x06, ''80486''), (0x07, ''8087''), (0x08, ''80287''),
     (0x09, ''80387''), (0x0A, ''80487''), (0x0B, ''Pentium''), (0x0C, ''Pentium Pro''),
     (0x0D, ''Pentium II''), (0x0E, ''Pentium MMX''), (0x0F, ''Celeron''),
     (0x10, ''Pentium II Xeon''), (0x11, ''Pentium III''), (0x12, ''M1''), (0x13, ''M2''),
     (0x14, ''Celeron M''), (0x15, ''Pentium 4 HT''), (0x18, ''Duron''), (0x19, ''K5''),
     (0x1A, ''K6''), (0x1B, ''K6-2''), (0x1C, ''K6-3''), (0x1D, ''Athlon''),
     (0x1E, ''AMD29000''), (0x1F, ''K6-2+''), (0x20, ''Power PC''), (0x21, ''Power PC 601''),
     (0x22, ''Power PC 603''), (0x23, ''Power PC 603+''), (0x24, ''Power PC 604''),
     (0x25, ''Power PC 620''), (0x26, ''Power PC x704''), (0x27, ''Power PC 750''),
     (0x28, ''Core Duo''), (0x29, ''Core Duo Mobile''), (0x2A, ''Core Solo Mobile''),
     (0x2B, ''Atom''), (0x2C, ''Core M''), (0x2D, ''Core m3''), (0x2E, ''Core m5''),
     (0x2F, ''Core m7''), (0x30, ''Alpha''), (0x31, ''Alpha 21064''), (0x32, ''Alpha 21066''),
     (0x33, ''Alpha 21164''), (0x34, ''Alpha 21164PC''), (0x35, ''Alpha 21164a''),
     (0x36, ''Alpha 21264''), (0x37, ''Alpha 21364''),
     (0x38, ''Turion II Ultra Dual-Core Mobile M''), (0x39, ''Turion II Dual-Core Mobile M''),
     (0x3A, ''Athlon II Dual-Core M''), (0x3B, ''Opteron 6100''), (0x3C, ''Opteron 4100''),
     (0x3D, ''Opteron 6200''), (0x3E, ''Opteron 4200''), (0x3F, ''FX''), (0x40, ''MIPS''),
     (0x41, ''MIPS R4000''), (0x42, ''MIPS R4200''), (0x43, ''MIPS R4400''),
     (0x44, ''MIPS R4600''), (0x45, ''MIPS R10000''), (0x46, ''C-Series''),
     (0x47, ''E-Series''), (0x48, ''A-Series''), (0x49, ''G-Series''), (0x4A, ''Z-Series''),
     (0x4B, ''R-Series''), (0x4C, ''Opteron 4300''), (0x4D, ''Opteron 6300''),
     (0x4E, ''Opteron 3300''), (0x4F, ''FirePro''), (0x50, ''SPARC''), (0x51, ''SuperSPARC''),
     (0x52, ''MicroSPARC II''), (0x53, ''MicroSPARC IIep''), (0x54, ''UltraSPARC''),
     (0x55, ''UltraSPARC II''), (0x56, ''UltraSPARC IIi''), (0x57, ''UltraSPARC III''),
     (0x58, ''UltraSPARC IIIi''), (0x60, ''68040''), (0x61, ''68xxx''), (0x62, ''68000''),
     (0x63, ''68010''), (0x64, ''68020''), (0x65, ''68030''), (0x66, ''Athlon X4''),
     (0x67, ''Opteron X1000''), (0x68, ''Opteron X2000''), (0x69, ''Opteron A-Series''),
     (0x6A, ''Opteron X3000''), (0x6B, ''Zen''), (0x70, ''Hobbit''),
     (0x78, ''Crusoe TM5000''), (0x79, ''Crusoe TM3000''), (0x7A, ''Efficeon TM8000''),
     (0x80, ''Weitek''), (0x82, ''Itanium''), (0x83, ''Athlon 64''), (0x84, ''Opteron''),
     (0x85, ''Sempron''), (0x86, ''Turion 64''), (0x87, ''Dual-Core Opteron''),
     (0x88, ''Athlon 64 X2''), (0x89, ''Turion 64 X2''), (0x8A, ''Quad-Core Opteron''),
     (0x8B, ''Third-Generation Opteron''), (0x8C, ''Phenom FX''), (0x8D, ''Phenom X4''),
     (0x8E, ''Phenom X2''), (0x8F, ''Athlon X2''), (0x90, ''PA-RISC''),
     (0x91, ''PA-RISC 8500''), (0x92, ''PA-RISC 8000''), (0x93, ''PA-RISC 7300LC''),
     (0x94, ''PA-RISC 7200''), (0x95, ''PA-RISC 7100LC''), (0x96, ''PA-RISC 7100''),
     (0xA0, ''V30''), (0xA1, ''Quad-Core Xeon 3200''), (0xA2, ''Dual-Core Xeon 3000''),
     (0xA3, ''Quad-Core Xeon 5300''), (0xA4, ''Dual-Core Xeon 5100''),
     (0xA5, ''Dual-Core Xeon 5000''), (0xA6, ''Dual-Core Xeon LV''),
     (0xA7, ''Dual-Core Xeon ULV''), (0xA8, ''Dual-Core Xeon 7100''),
     (0xA9, ''Quad-Core Xeon 5400''), (0xAA, ''Quad-Core Xeon''),
     (0xAB, ''Dual-Core Xeon 5200''), (0xAC, ''Dual-Core Xeon 7200''),
     (0xAD, ''Quad-Core Xeon 7300''), (0xAE, ''Quad-Core Xeon 7400''),
     (0xAF, ''Multi-Core Xeon 7400''), (0xB0, ''Pentium III Xeon''),
     (0xB1, ''Pentium III Speedstep''), (0xB2, ''Pentium 4''), (0xB3, ''Xeon''),
     (0xB4, ''AS400''), (0xB5, ''Xeon MP''), (0xB6, ''Athlon XP''), (0xB7, ''Athlon MP''),
     (0xB8, ''Itanium 2''), (0xB9, ''Pentium M''), (0xBA, ''Celeron D''),
     (0xBB, ''Pentium D''), (0xBC, ''Pentium EE''), (0xBD, ''Core Solo''),
     (0xBF, ''Core 2 Duo''), (0xC0, ''Core 2 Solo''), (0xC1, ''Core 2 Extreme''),
     (0xC2, ''Core 2 Quad''), (0xC3, ''Core 2 Extreme Mobile''),
     (0xC4, ''Core 2 Duo Mobile''), (0xC5, ''Core 2 Solo Mobile''), (0xC6, ''Core i7''),
     (0xC7, ''Dual-Core Celeron''), (0xC8, ''IBM390''), (0xC9, ''G4''), (0xCA, ''G5''),
     (0xCB, ''ESA/390 G6''), (0xCC, ''z/Architecture''), (0xCD, ''Core i5''),
     (0xCE, ''Core i3''), (0xCF, ''Core i9''), (0xD2, ''C7-M''), (0xD3, ''C7-D''),
     (0xD4, ''C7''), (0xD5, ''Eden''), (0xD6, ''Multi-Core Xeon''),
     (0xD7, ''Dual-Core Xeon 3xxx''), (0xD8, ''Quad-Core Xeon 3xxx''), (0xD9, ''Nano''),
     (0xDA, ''Dual-Core Xeon 5xxx''), (0xDB, ''Quad-Core Xeon 5xxx''),
     (0xDD, ''Dual-Core Xeon 7xxx''), (0xDE, ''Quad-Core Xeon 7xxx''),
     (0xDF, ''Multi-Core Xeon 7xxx''), (0xE0, ''Multi-Core Xeon 3400''),
     (0xE4, ''Opteron 3000''), (0xE5, ''Sempron II''), (0xE6, ''Embedded Opteron Quad-Core''),
     (0xE7, ''Phenom Triple-Core''), (0xE8, ''Turion Ultra Dual-Core Mobile''),
     (0xE9, ''Turion Dual-Core Mobile''), (0xEA, ''Athlon Dual-Core''),
     (0xEB, ''Sempron SI''), (0xEC, ''Phenom II''), (0xED, ''Athlon II''),
     (0xEE, ''Six-Core Opteron''), (0xEF, ''Sempron M''), (0xFA, ''i860''), (0xFB, ''i960''),
     (0x100, ''ARMv7''), (0x101, ''ARMv8''), (0x104, ''SH-3''), (0x105, ''SH-4''),
     (0x118, ''ARM''), (0x119, ''StrongARM''), (0x12C, ''6x86''), (0x12D, ''MediaGX''),
     (0x12E, ''MII''), (0x140, ''WinChip''), (0x15E, ''DSP''), (0x1F4, ''Video Processor''),
     (0x200, ''RV32''), (0x201, ''RV64''), (0x202, ''RV128'')]"

text \<open>\<open>strstr\<close>: the offset of the first occurrence, \<open>None\<close> for \<open>NULL\<close>.\<close>

fun strstr :: "string \<Rightarrow> string \<Rightarrow> nat option" where
  "strstr [] needle = (if needle = [] then Some 0 else None)"
| "strstr (c # cs) needle =
     (if prefix needle (c # cs) then Some 0 else map_option Suc (strstr cs needle))"

definition tolower :: "char \<Rightarrow> char" where
  "tolower c =
     (let n = of_char c :: nat in if 65 \<le> n \<and> n \<le> 90 then char_of (n + 32) else c)"

text \<open>
  \<open>strncasecmp\<close>: the difference of the first pair of characters that differ once
  lowered, among the first \<open>n\<close>; the end of a string counts as the character 0.
\<close>

fun strncasecmp :: "string \<Rightarrow> string \<Rightarrow> nat \<Rightarrow> int" where
  "strncasecmp s1 s2 0 = 0"
| "strncasecmp [] [] (Suc n) = 0"
| "strncasecmp [] (d # ds) (Suc n) = - int (of_char (tolower d))"
| "strncasecmp (c # cs) [] (Suc n) = int (of_char (tolower c))"
| "strncasecmp (c # cs) (d # ds) (Suc n) =
     (if tolower c = tolower d then strncasecmp cs ds n
      else int (of_char (tolower c)) - int (of_char (tolower d)))"

text \<open>
  The binary search at the end of \<open>dmi_processor_family\<close>:
  \<^verbatim>\<open>while (1) { i = (low + high) / 2; ... }\<close>
  The loop has no bound of its own, so the model is a partial function and its
  termination on the table is a theorem.
\<close>

partial_function (option) family_search ::
  "(nat \<times> string) list \<Rightarrow> nat \<Rightarrow> nat \<Rightarrow> nat \<Rightarrow> string option" where
  "family_search tab code low high =
     (let i = (low + high) div 2 in
      if fst (tab ! i) = code then Some (snd (tab ! i))
      else if low = high then Some out_of_spec
      else if code < fst (tab ! i) then family_search tab code low i
      else family_search tab code (i + 1) high)"

declare family_search.simps [code]

text \<open>
  \<open>dmi_string\<close> as \<open>strstr\<close> and \<open>strncasecmp\<close> read its result: a string of the
  record is read as it is, the literals \<open>u"Not Specified"\<close> and \<open>u"<BAD INDEX>"\<close> up to
  their first zero byte.
\<close>

definition dmi_string_read :: "u8 list \<Rightarrow> dmi_header \<Rightarrow> u8 \<Rightarrow> (u8 list \<times> string) option" where
  "dmi_string_read buf dm s =
     (if s = 0 then Some (buf, c_string_at (u_literal ''Not Specified''))
      else
        (case dmi_string_raw buf dm s True of
           None \<Rightarrow> None
         | Some (buf', None) \<Rightarrow> Some (buf', c_string_at (u_literal bad_index))
         | Some (buf', Some bp) \<Rightarrow> Some (buf', c_str buf' bp)))"

text \<open>
  \<open>dmi_processor_family\<close>. The needles of \<open>strstr\<close> and \<open>strncasecmp\<close> are the
  literals \<open>u"Intel"\<close> and \<open>u"AMD"\<close> as these functions read them.
\<close>

definition dmi_processor_family ::
  "u8 list \<Rightarrow> dmi_header \<Rightarrow> u16 \<Rightarrow> (u8 list \<times> string) option" where
  "dmi_processor_family buf h ver =
     (let data = data_h h;
          intel = c_string_at (u_literal ''Intel'');
          amd = c_string_at (u_literal ''AMD'')
      in
      do {
        d6 \<leftarrow> rd buf (data + 0x06);
        (buf1, pentium_pro) \<leftarrow>
          (if ver = 0x0200 \<and> d6 = 0x30 \<and> length_h h \<ge> 0x08 then
             do {
               d7 \<leftarrow> rd buf (data + 0x07);
               (b, manufacturer) \<leftarrow> dmi_string_read buf h d7;
               Some (b, strstr manufacturer intel \<noteq> None
                        \<or> strncasecmp manufacturer intel 5 = 0)
             }
           else Some (buf, False));
        if pentium_pro then Some (buf1, ''Pentium Pro'')
        else do {
          code \<leftarrow> (if d6 = 0xFE \<and> length_h h \<ge> 0x2A then WORD buf1 (data + 0x28)
                    else Some (ucast d6));
          if code = 0xBE then
            (if length_h h \<ge> 0x08 then
               do {
                 d7 \<leftarrow> rd buf1 (data + 0x07);
                 (b, manufacturer) \<leftarrow> dmi_string_read buf1 h d7;
                 if strstr manufacturer intel \<noteq> None
                    \<or> strncasecmp manufacturer intel 5 = 0
                 then Some (b, ''Core 2'')
                 else if strstr manufacturer amd \<noteq> None
                    \<or> strncasecmp manufacturer amd 3 = 0
                 then Some (b, ''K7'')
                 else Some (b, ''Core 2 or K7'')
               }
             else Some (buf1, ''Core 2 or K7''))
          else do {
            name \<leftarrow> family_search family2 (unat code) 0 (length family2 - 1);
            Some (buf1, name)
          }
        }
      })"

text \<open>
  The words of the claim about the manufacturer: it contains the name, or it starts
  with the name whatever the case of the letters.
\<close>

definition names_vendor :: "string \<Rightarrow> string \<Rightarrow> bool" where
  "names_vendor manufacturer name \<longleftrightarrow>
     sublist name manufacturer \<or> prefix (map tolower name) (map tolower manufacturer)"

text \<open>
  The code that \<open>dmi_processor_family\<close> looks up: the family byte, or the 16-bit
  family field when the byte is 0xFE and the record is long enough to hold it.
\<close>

definition family_code :: "u8 list \<Rightarrow> dmi_header \<Rightarrow> u16 option" where
  "family_code buf h =
     do {
       d6 \<leftarrow> rd buf (data_h h + 0x06);
       if d6 = 0xFE \<and> length_h h \<ge> 0x2A then WORD buf (data_h h + 0x28)
       else Some (ucast d6)
     }"

text \<open>The special case of SMBIOS 2.0 for the family byte 0x30.\<close>

definition special_0x30 :: "u8 list \<Rightarrow> dmi_header \<Rightarrow> u16 \<Rightarrow> bool" where
  "special_0x30 buf h ver \<longleftrightarrow>
     ver = 0x0200 \<and> rd buf (data_h h + 0x06) = Some 0x30 \<and> length_h h \<ge> 0x08"

text \<open>Neighbours in ascending order: a linear check of the order of the table.\<close>

fun ascending :: "nat list \<Rightarrow> bool" where
  "ascending (x # y # zs) \<longleftrightarrow> x < y \<and> ascending (y # zs)"
| "ascending _ \<longleftrightarrow> True"


section \<open>Table walker\<close>

definition to_dmi_header :: "u8 list \<Rightarrow> nat \<Rightarrow> dmi_header" where
  "to_dmi_header buf data =
     \<lparr>type_h = buf ! data, length_h = buf ! (data + 1),
      handle_h = word_at buf (data + 2), data_h = data\<rparr>"

definition is_printable :: "u8 list \<Rightarrow> nat \<Rightarrow> nat \<Rightarrow> bool" where
  "is_printable buf p len \<longleftrightarrow>
     list_all (\<lambda>i. \<not> (buf ! (p + i) < 32 \<or> buf ! (p + i) \<ge> 127)) [0..<len]"

text \<open>\<open>dmi_fixup_type_34\<close>: what it prints and the header it leaves.\<close>

definition dmi_fixup_type_34 :: "opt \<Rightarrow> u8 list \<Rightarrow> dmi_header \<Rightarrow> bool \<Rightarrow> out list \<times> dmi_header" where
  "dmi_fixup_type_34 opt buf h display =
     (if length_h h = 0x10 \<and> is_printable buf (data_h h + 0x0B) (0x10 - 0x0B) then
        (if \<not> quiet opt \<and> display then [Printf_fixup_34] else [], h\<lparr>length_h := 0x0B\<rparr>)
      else ([], h))"

text \<open>
  The search for the next handle, on a buffer of \<open>len\<close> bytes:
  \<^verbatim>\<open>while ((unsigned long)(next - buf + 1) < len && (next[0] != 0 || next[1] != 0)) next++;\<close>
\<close>

function next_scan :: "u8 list \<Rightarrow> nat \<Rightarrow> nat \<Rightarrow> nat" where
  "next_scan buf len nxt =
     (if nxt + 1 < len \<and> (buf ! nxt \<noteq> 0 \<or> buf ! (nxt + 1) \<noteq> 0)
      then next_scan buf len (nxt + 1) else nxt)"
  by pat_completeness auto
termination
  by (relation "measure (\<lambda>(buf, len, nxt). len - nxt)") auto

declare next_scan.simps [simp del]

text \<open>\<^verbatim>\<open>next = data + h.length; while (...) next++; next += 2;\<close>\<close>

definition next_record :: "u8 list \<Rightarrow> nat \<Rightarrow> dmi_header \<Rightarrow> nat" where
  "next_record buf len h = next_scan buf len (data_h h + unat (length_h h)) + 2"

text \<open>
  The two arguments that the first pass hands to \<open>dmi_set_vendor\<close> (defined in dmioem.c,
  which is not among the sources): the results of \<open>_dmi_string\<close> for the manufacturer and
  the product name.
\<close>

type_synonym str_ptr = "(u8 list \<times> nat option) option"

text \<open>
  The first pass of \<open>dmi_table_decode\<close>. \<open>len\<close> is the number of bytes of the buffer,
  \<open>num\<close> the announced number of structures, \<open>i\<close> the counter of the loop.
\<close>

function first_pass ::
  "opt \<Rightarrow> u8 list \<Rightarrow> nat \<Rightarrow> u16 \<Rightarrow> nat \<Rightarrow> nat \<Rightarrow> (str_ptr \<times> str_ptr) option" where
  "first_pass opt buf len num i data =
     (if (i < unat num \<or> num = 0) \<and> data + 4 \<le> len then
        (let h = to_dmi_header buf data in
         if length_h h < 4
            \<or> (type_h h = 127 \<and> flags_o opt AND (FLAG_QUIET OR FLAG_STOP_AT_EOT) \<noteq> 0)
         then None
         else
           (let nxt = next_record buf len h in
            if nxt > len then None
            else if type_h h = 1 \<and> length_h h \<ge> 6 then
              Some (dmi_string_raw buf h (buf ! (data + 0x04)) False,
                    dmi_string_raw buf h (buf ! (data + 0x05)) False)
            else first_pass opt buf len num (i + 1) nxt))
      else None)"
  by pat_completeness auto
termination
proof (relation "measure (\<lambda>(opt, buf, len, num, i, data). len - data)")
  show "wf (measure (\<lambda>(opt, buf, len, num, i, data). len - data))" by simp
next
  fix opt :: opt and buf :: "u8 list" and len :: nat and num :: u16 and i data :: nat
    and h :: dmi_header and nxt :: nat
  assume h: "h = to_dmi_header buf data" and nxt: "nxt = next_record buf len h"
    and fits: "\<not> len < nxt"
  have mono: "\<And>p. p \<le> next_scan buf len p"
  proof -
    fix p show "p \<le> next_scan buf len p"
    proof (induction buf len p rule: next_scan.induct)
      case (1 buf len nxt)
      show ?case
      proof (cases "nxt + 1 < len \<and> (buf ! nxt \<noteq> 0 \<or> buf ! (nxt + 1) \<noteq> 0)")
        case True
        then have "nxt + 1 \<le> next_scan buf len (nxt + 1)" by (rule "1.IH")
        moreover have "next_scan buf len nxt = next_scan buf len (nxt + 1)"
          using True by (subst next_scan.simps) auto
        ultimately show ?thesis by simp
      next
        case False
        then show ?thesis by (subst next_scan.simps) auto
      qed
    qed
  qed
  have "data_h h = data" using h by (simp add: to_dmi_header_def)
  then have "data < nxt"
    using mono [of "data + unat (length_h h)"] nxt by (simp add: next_record_def)
  then show "((opt, buf, len, num, i + 1, nxt), (opt, buf, len, num, i, data))
             \<in> measure (\<lambda>(opt, buf, len, num, i, data). len - data)"
    using fits by simp
qed

declare first_pass.simps [simp del]

text \<open>
  The record decoders that the second pass calls. Each receives the options, the
  buffer (which it may filter in place) and the header, and returns what it wrote and
  the buffer: \<open>dmi_decode\<close> (with the vendor strings of the first pass), \<open>dmi_dump\<close> and
  \<open>dmi_table_string\<close>. The walker is verified for every choice of them.
\<close>

record decoders =
  dmi_decode :: "(str_ptr \<times> str_ptr) option \<Rightarrow> opt \<Rightarrow> u8 list \<Rightarrow> dmi_header \<Rightarrow> u16
                 \<Rightarrow> out list \<times> u8 list"
  dmi_dump :: "opt \<Rightarrow> u8 list \<Rightarrow> dmi_header \<Rightarrow> out list \<times> u8 list"
  dmi_table_string :: "opt \<Rightarrow> u8 list \<Rightarrow> dmi_header \<Rightarrow> nat \<Rightarrow> u16 \<Rightarrow> out list \<times> u8 list"

text \<open>The variables of the second pass and the global \<open>opt\<close>, whose flags it may change.\<close>

record walk =
  i_w :: nat
  data_w :: nat
  buf_w :: "u8 list"
  opt_w :: opt
  out_w :: "out list"

datatype loop = Continue walk | Break walk

text \<open>The variables after one turn of the loop, however the turn ends.\<close>

fun state_of :: "loop \<Rightarrow> walk" where
  "state_of (Continue s) = s"
| "state_of (Break s) = s"

definition display_of :: "opt \<Rightarrow> dmi_header \<Rightarrow> bool" where
  "display_of opt h \<longleftrightarrow>
     (case type_o opt of None \<Rightarrow> True | Some t \<Rightarrow> t (type_h h) \<noteq> 0)
     \<and> (handle_o opt = NOT 0 \<or> handle_o opt = ucast (handle_h h))
     \<and> \<not> (quiet opt \<and> (type_h h = 126 \<or> type_h h = 127))
     \<and> string_o opt = None"

text \<open>
  What the second loop does with a record that fits in the table: \<open>dmi_dump\<close> or
  \<open>dmi_decode\<close> when the record is displayed, \<open>dmi_table_string\<close> when a string keyword
  of its type was asked for. The result is what was written and the buffer.
\<close>

definition decode_record ::
  "decoders \<Rightarrow> (str_ptr \<times> str_ptr) option \<Rightarrow> opt \<Rightarrow> u8 list \<Rightarrow> dmi_header \<Rightarrow> bool
   \<Rightarrow> nat \<Rightarrow> u16 \<Rightarrow> out list \<times> u8 list" where
  "decode_record D vendor opt buf h display data ver =
     (if display then
        (if dump opt then
           (let (w, b) = dmi_dump D opt buf h in ([Decoded w, Pr_sep], b))
         else
           (let (w, b) = dmi_decode D vendor opt buf h ver in ([Decoded w], b)))
      else
        (case string_o opt of
           None \<Rightarrow> ([], buf)
         | Some k \<Rightarrow>
             if type_k k = type_h h then
               (let (w, b) = dmi_table_string D opt buf h data ver in ([Decoded w], b))
             else ([], buf)))"

text \<open>One turn of the second loop, entered when its condition holds.\<close>

definition decode_step ::
  "decoders \<Rightarrow> (str_ptr \<times> str_ptr) option \<Rightarrow> nat \<Rightarrow> u16 \<Rightarrow> u32 \<Rightarrow> walk \<Rightarrow> loop" where
  "decode_step D vendor len ver flags st =
     (let opt = opt_w st; buf = buf_w st; data = data_w st;
          h = to_dmi_header buf data;
          display = display_of opt h
      in
      if length_h h < 4 then
        (if \<not> quiet opt then
           Break (st\<lparr>out_w := out_w st @ [Printf_invalid_length (unat (length_h h))],
                     opt_w := opt\<lparr>flags_o := flags_o opt OR FLAG_QUIET\<rparr>\<rparr>)
         else Break st)
      else
        let st1 = st\<lparr>i_w := i_w st + 1\<rparr> in
        if quiet opt \<and> type_h h = 127 then Break st1
        else
          let o1 = (if display \<and> (\<not> quiet opt \<or> dump opt) then [Pr_handle h] else []);
              nxt = next_record buf len h
          in
          if nxt > len then
            Break (st1\<lparr>out_w := out_w st @ o1
                          @ (if display \<and> \<not> quiet opt then [Pr_struct_err ''<TRUNCATED>'']
                             else [])
                          @ [Pr_sep],
                        data_w := nxt\<rparr>)
          else
            let fixed = (if type_h h = 34 then dmi_fixup_type_34 opt buf h display
                         else ([], h));
                decoded = decode_record D vendor opt buf (snd fixed) display data ver;
                st2 = st1\<lparr>out_w := out_w st @ o1 @ fst fixed @ fst decoded,
                          buf_w := snd decoded, data_w := nxt\<rparr>
            in
            if type_h (snd fixed) = 127 \<and> flags AND FLAG_STOP_AT_EOT \<noteq> 0 then Break st2
            else Continue st2)"

definition loop_cond :: "nat \<Rightarrow> u16 \<Rightarrow> walk \<Rightarrow> bool" where
  "loop_cond len num st \<longleftrightarrow> (i_w st < unat num \<or> num = 0) \<and> data_w st + 4 \<le> len"

function second_pass ::
  "decoders \<Rightarrow> (str_ptr \<times> str_ptr) option \<Rightarrow> nat \<Rightarrow> u16 \<Rightarrow> u16 \<Rightarrow> u32 \<Rightarrow> walk \<Rightarrow> walk" where
  "second_pass D vendor len num ver flags st =
     (if loop_cond len num st then
        (case decode_step D vendor len ver flags st of
           Break st' \<Rightarrow> st'
         | Continue st' \<Rightarrow> second_pass D vendor len num ver flags st')
      else st)"
  by pat_completeness auto
termination
proof (relation "measure (\<lambda>(D, vendor, len, num, ver, flags, st). len - data_w st)")
  show "wf (measure (\<lambda>(D, vendor, len, num, ver, flags, st). len - data_w st))" by simp
next
  fix D :: decoders and vendor :: "(str_ptr \<times> str_ptr) option" and len :: nat
    and num ver :: u16 and flags :: u32 and st st' :: walk
  assume step: "decode_step D vendor len ver flags st = Continue st'"
  have mono: "\<And>buf p. p \<le> next_scan buf len p"
  proof -
    fix buf p show "p \<le> next_scan buf len p"
    proof (induction buf len p rule: next_scan.induct)
      case (1 buf len nxt)
      show ?case
      proof (cases "nxt + 1 < len \<and> (buf ! nxt \<noteq> 0 \<or> buf ! (nxt + 1) \<noteq> 0)")
        case True
        then have "nxt + 1 \<le> next_scan buf len (nxt + 1)" by (rule "1.IH")
        moreover have "next_scan buf len nxt = next_scan buf len (nxt + 1)"
          using True by (subst next_scan.simps) auto
        ultimately show ?thesis by simp
      next
        case False
        then show ?thesis by (subst next_scan.simps) auto
      qed
    qed
  qed
  let ?h = "to_dmi_header (buf_w st) (data_w st)"
  have far: "data_w st < next_record (buf_w st) len ?h"
    using mono [of "data_w st + unat (length_h ?h)" "buf_w st"]
    by (simp add: next_record_def to_dmi_header_def)
  have "case decode_step D vendor len ver flags st of
          Continue s \<Rightarrow> data_w s = next_record (buf_w st) len ?h
                          \<and> \<not> len < next_record (buf_w st) len ?h
        | Break s \<Rightarrow> True"
    by (simp add: decode_step_def Let_def split_beta)
  with step have "data_w st' = next_record (buf_w st) len ?h
                  \<and> \<not> len < next_record (buf_w st) len ?h"
    by simp
  with far show "((D, vendor, len, num, ver, flags, st'), (D, vendor, len, num, ver, flags, st))
             \<in> measure (\<lambda>(D, vendor, len, num, ver, flags, st). len - data_w st)"
    by (auto simp: not_less intro!: diff_less_mono2)
qed

declare second_pass.simps [simp del]

text \<open>The checks of \<open>dmi_table_decode\<close> after the second loop.\<close>

definition post_walk :: "nat \<Rightarrow> u16 \<Rightarrow> walk \<Rightarrow> out list" where
  "post_walk len num st =
     (if \<not> quiet (opt_w st) then
        (if num \<noteq> 0 \<and> i_w st \<noteq> unat num
         then [Printf_wrong_count (unat num) (i_w st)] else [])
        @ (if data_w st > len \<or> (num \<noteq> 0 \<and> data_w st < len)
           then [Printf_wrong_length len (data_w st)] else [])
      else [])"

text \<open>
  \<open>dmi_table_decode\<close>: both passes and the checks after them. The result holds what
  was written, the buffer and the options as the function leaves them.
\<close>

definition dmi_table_decode ::
  "decoders \<Rightarrow> opt \<Rightarrow> u8 list \<Rightarrow> nat \<Rightarrow> u16 \<Rightarrow> u16 \<Rightarrow> u32 \<Rightarrow> walk" where
  "dmi_table_decode D opt buf len num ver flags =
     (let vendor = first_pass opt buf len num 0 0;
          st = second_pass D vendor len num ver flags
                 \<lparr>i_w = 0, data_w = 0, buf_w = buf, opt_w = opt, out_w = []\<rparr>
      in st\<lparr>out_w := out_w st @ post_walk len num st\<rparr>)"

text \<open>
  The diagnostics of \<open>dmi_table_decode\<close> among the events: the one about a record shorter
  than its header, and the two about the announced count and length.
\<close>

fun is_invalid_length :: "out \<Rightarrow> bool" where
  "is_invalid_length (Printf_invalid_length n) = True"
| "is_invalid_length _ = False"

fun is_mismatch :: "out \<Rightarrow> bool" where
  "is_mismatch (Printf_wrong_count a d) = True"
| "is_mismatch (Printf_wrong_length a d) = True"
| "is_mismatch _ = False"

section \<open>Sample inputs\<close>

text \<open>A System Information record of four bytes with the strings "AB" and "C".\<close>

definition rec_two_strings :: "u8 list" where
  "rec_two_strings = [1, 4, 0, 0, 0x41, 0x42, 0, 0x43, 0, 0]"

definition hdr_two_strings :: dmi_header where
  "hdr_two_strings = \<lparr>type_h = 1, length_h = 4, handle_h = 0, data_h = 0\<rparr>"

text \<open>4096 bytes as a \<open>u64\<close>.\<close>

definition size_4096 :: u64 where
  "size_4096 = \<lparr>u64_l = 4096, u64_h = 0\<rparr>"

text \<open>
  A processor record of eight bytes with the family byte 0xBE and one string, the
  manufacturer.
\<close>

definition rec_proc :: "string \<Rightarrow> u8 list" where
  "rec_proc manufacturer =
     [4, 8, 0, 0, 0, 0, 0xBE, 1] @ map of_char manufacturer @ [0, 0]"

definition hdr_proc :: dmi_header where
  "hdr_proc = \<lparr>type_h = 4, length_h = 8, handle_h = 0, data_h = 0\<rparr>"

text \<open>
  Options as \<open>main\<close> sets them before it reads the command line, and a 32-bit and a
  64-bit entry point of 32 bytes with valid checksums; the 32-bit one declares the
  length 0x1F and has the anchor "_DMI_" at offset 0x10, the 64-bit one declares the
  length 0x18. \<open>entry_sm_u\<close> is the 32-bit entry point with the bytes 5F 00 44 00 4D at
  offset 0x10 and its checksums adjusted.
\<close>

definition default_opt :: opt where
  "default_opt = \<lparr>dumpfile_o = [], flags_o = 0, type_o = None, string_o = None,
                   handle_o = NOT 0\<rparr>"

definition entry_sm :: "u8 list" where
  "entry_sm =
     [0x5F, 0x53, 0x4D, 0x5F, 0x78, 0x1F, 0x02, 0x08, 0x00, 0x01, 0x00, 0x00, 0x00, 0x00,
      0x00, 0x00, 0x5F, 0x44, 0x4D, 0x49, 0x5F, 0xEF, 0x40, 0x00, 0x00, 0x00, 0x0F, 0x00,
      0x02, 0x00, 0x28, 0x00]"



text \<open>
  A Physical Memory Array record of 15 bytes (SMBIOS 2.1 layout) whose maximum capacity
  field is 0x80000000, followed by an empty string area.
\<close>

definition rec_array :: "u8 list" where
  "rec_array =
     [16, 0x0F, 0x00, 0x10, 0x03, 0x03, 0x06, 0x00, 0x00, 0x00, 0x80, 0xFE, 0xFF, 0x04, 0x00,
      0, 0]"

definition hdr_array :: dmi_header where
  "hdr_array = \<lparr>type_h = 16, length_h = 0x0F, handle_h = 0x1000, data_h = 0\<rparr>"

text \<open>A Physical Memory Array record that declares only its four header bytes.\<close>

definition rec_array_short :: "u8 list" where
  "rec_array_short = [16, 0x04, 0x00, 0x10, 0, 0]"

definition hdr_array_short :: dmi_header where
  "hdr_array_short = \<lparr>type_h = 16, length_h = 0x04, handle_h = 0x1000, data_h = 0\<rparr>"

text \<open>
  Record decoders that decode a Physical Memory Array with \<open>dmi_decode_16\<close> and write
  nothing for a record of any other type.
\<close>

definition sample_decoders :: decoders where
  "sample_decoders =
     \<lparr>dmi_decode = (\<lambda>vendor opt buf h ver.
        (if type_h h = 16 then (case dmi_decode_16 opt buf h of Some w \<Rightarrow> w | None \<Rightarrow> [])
         else [], buf)),
      dmi_dump = (\<lambda>opt buf h. ([], buf)),
      dmi_table_string = (\<lambda>opt buf h data ver. ([], buf))\<rparr>"

text \<open>
  Three tables that start with the Physical Memory Array record above. In the first an
  end-of-table record with an empty string area follows; in the second the last byte of
  that record is missing; in the third the second record declares a length of two bytes.
\<close>

definition table_two :: "u8 list" where
  "table_two = rec_array @ [127, 4, 0x01, 0x10, 0, 0]"

definition table_truncated :: "u8 list" where
  "table_truncated = rec_array @ [127, 4, 0x01, 0x10, 0]"

definition table_short :: "u8 list" where
  "table_short = rec_array @ [127, 2, 0x01, 0x10, 0, 0]"

text \<open>The variables of the second pass when it starts on a table.\<close>

definition walk_start :: "u8 list \<Rightarrow> walk" where
  "walk_start buf = \<lparr>i_w = 0, data_w = 0, buf_w = buf, opt_w = default_opt, out_w = []\<rparr>"

text \<open>
  What \<open>dmi_decode_16\<close> writes for the Physical Memory Array record above, and the headers
  of the second record of the second and of the third table.
\<close>

definition decoded_array :: "out list" where
  "decoded_array =
     [Pr_handle_name ''Physical Memory Array'',
      Pr_attr ''Location'' ''System Board Or Motherboard'',
      Pr_attr ''Use'' ''System Memory'',
      Pr_attr ''Error Correction Type'' ''Multi-bit ECC'',
      Pr_attr ''Maximum Capacity'' ''Unknown'',
      Pr_attr ''Error Information Handle'' ''Not Provided'',
      Pr_attr ''Number Of Devices'' ''4'']"

definition hdr_eot :: dmi_header where
  "hdr_eot = \<lparr>type_h = 127, length_h = 4, handle_h = 0x1001, data_h = 17\<rparr>"

definition hdr_bad :: dmi_header where
  "hdr_bad = \<lparr>type_h = 127, length_h = 2, handle_h = 0x1001, data_h = 17\<rparr>"

text \<open>The options after the second pass has set \<open>FLAG_QUIET\<close> in them.\<close>

definition quiet_opt :: opt where
  "quiet_opt = default_opt\<lparr>flags_o := flags_o default_opt OR FLAG_QUIET\<rparr>"

section \<open>Verified properties\<close>

subsection \<open>String table accessor\<close>


lemma strlen_from_app: "0 \<notin> set x \<Longrightarrow> strlen_from (x @ 0 # rest) = Some (length x)"
  by (induction x) auto

lemma strlen_c_at: "0 \<notin> set x \<Longrightarrow> strlen_c (pre @ x @ 0 # rest) (length pre) = Some (length x)"
  by (simp add: strlen_c_def strlen_from_app)

lemma rd_at: "rd (pre @ b # rest) (length pre) = Some b"
  by (simp add: rd_def)

lemma unat_pred: "(1::u8) < s \<Longrightarrow> unat (s - 1) = unat s - 1"
  by (rule unat_minus_one) auto

lemma skip_strs:
  assumes "\<forall>x \<in> set strs. x \<noteq> [] \<and> 0 \<notin> set x"
  shows "dmi_string_skip (pre @ concat (map (\<lambda>x. x @ [0]) strs) @ 0 # rest) (length pre) s
        = Some (length pre + length (concat (map (\<lambda>x. x @ [0]) (take (unat s - 1) strs))))"
  using assms
proof (induction strs arbitrary: pre s)
  case Nil
  show ?case by (subst dmi_string_skip.simps) (simp add: rd_at)
next
  case (Cons x xs)
  show ?case
  proof (cases "1 < s")
    case False
    then have "unat s - 1 = 0"
      by (simp add: word_less_nat_alt)
    then show ?thesis using False by (subst dmi_string_skip.simps) simp
  next
    case True
    from Cons.prems obtain b bs where x: "x = b # bs" and b: "b \<noteq> 0" and bs: "0 \<notin> set bs"
      by (cases x) auto
    have rd: "rd (pre @ concat (map (\<lambda>x. x @ [0]) (x # xs)) @ 0 # rest) (length pre) = Some b"
      using rd_at [of pre b] by (simp add: x)
    have sl: "strlen_c (pre @ concat (map (\<lambda>x. x @ [0]) (x # xs)) @ 0 # rest) (length pre) = Some (length x)"
      using strlen_c_at [of x pre "concat (map (\<lambda>x. x @ [0]) xs) @ 0 # rest"] Cons.prems by simp
    have ih: "dmi_string_skip ((pre @ x @ [0]) @ concat (map (\<lambda>x. x @ [0]) xs) @ 0 # rest) (length (pre @ x @ [0])) (s - 1)
        = Some (length (pre @ x @ [0]) + length (concat (map (\<lambda>x. x @ [0]) (take (unat (s - 1) - 1) xs))))"
      using Cons.IH [of "pre @ x @ [0]" "s - 1"] Cons.prems by simp
    have u: "unat s - 1 = Suc (unat (s - 1) - 1)"
      using True unat_pred [OF True] by (simp add: word_less_nat_alt)
    show ?thesis
      using True rd sl b ih u by (subst dmi_string_skip.simps) simp
  qed
qed


lemma string_area_split:
  assumes "string_area buf dm strs"
  obtains rest where
    "buf = take (data_h dm + unat (length_h dm)) buf @ concat (map (\<lambda>x. x @ [0]) strs) @ 0 # rest"
    "length (take (data_h dm + unat (length_h dm)) buf) = data_h dm + unat (length_h dm)"
proof -
  let ?p = "data_h dm + unat (length_h dm)"
  from assms obtain rest where
    r: "drop ?p buf = (concat (map (\<lambda>x. x @ [0]) strs) @ [0]) @ rest"
    unfolding string_area_def prefix_def by blast
  have "buf = take ?p buf @ drop ?p buf" by simp
  with r have "buf = take ?p buf @ concat (map (\<lambda>x. x @ [0]) strs) @ 0 # rest"
    by simp
  moreover have "length (take ?p buf) = ?p"
    using assms unfolding string_area_def by simp
  ultimately show thesis using that by blast
qed

lemma dmi_string_raw_beyond:
  assumes area: "string_area buf dm strs" and big: "length strs < unat s"
  shows "dmi_string_raw buf dm s filt = Some (buf, None)"
proof -
  let ?p = "data_h dm + unat (length_h dm)"
  let ?all = "concat (map (\<lambda>x. x @ [0]) strs)"
  from area obtain rest where
    buf: "buf = take ?p buf @ ?all @ 0 # rest" and len: "length (take ?p buf) = ?p"
    by (rule string_area_split)
  have ok: "\<forall>x \<in> set strs. x \<noteq> [] \<and> 0 \<notin> set x"
    using area unfolding string_area_def by simp
  have tk: "take (unat s - 1) strs = strs" using big by simp
  have "dmi_string_skip (take ?p buf @ ?all @ 0 # rest) (length (take ?p buf)) s
        = Some (length (take ?p buf) + length ?all)"
    using skip_strs [OF ok, of "take ?p buf" rest s] tk by simp
  then have skip: "dmi_string_skip buf ?p s = Some (?p + length ?all)"
    using buf len by metis
  have "rd ((take ?p buf @ ?all) @ 0 # rest) (length (take ?p buf @ ?all)) = Some 0"
    by (rule rd_at)
  then have "rd (take ?p buf @ ?all @ 0 # rest) (?p + length ?all) = Some 0"
    using len by simp
  then have "rd buf (?p + length ?all) = Some 0" using buf by metis
  with skip show ?thesis by (simp add: dmi_string_raw_def)
qed

text \<open>
  C4. Resolving the string index 0 returns "Not Specified" whatever the buffer holds.
  Resolving an index from 1 on that is larger than the number of strings in the
  trailing string area of the record returns the bad-index sentinel, which differs
  from "Not Specified".
\<close>

theorem dmi_string_sentinels:
  "dmi_string buf dm 0 = Some (buf, ''Not Specified'') \<and>
   bad_index \<noteq> ''Not Specified'' \<and>
   (string_area buf dm strs \<and> s \<noteq> 0 \<and> length strs < unat s \<longrightarrow>
      dmi_string buf dm s = Some (buf, bad_index))"
proof (intro conjI impI)
  show "dmi_string buf dm 0 = Some (buf, ''Not Specified'')"
    by (simp add: dmi_string_def)
  show "bad_index \<noteq> ''Not Specified''"
    by (simp add: bad_index_def)
next
  assume h: "string_area buf dm strs \<and> s \<noteq> 0 \<and> length strs < unat s"
  then have "dmi_string_raw buf dm s True = Some (buf, None)"
    using dmi_string_raw_beyond by blast
  with h show "dmi_string buf dm s = Some (buf, bad_index)"
    by (simp add: dmi_string_def)
qed

theorem dmi_string_sentinels_witness:
  "string_area rec_two_strings hdr_two_strings [[0x41, 0x42], [0x43]] \<and>
   dmi_string rec_two_strings hdr_two_strings 3 = Some (rec_two_strings, ''<BAD INDEX>'') \<and>
   dmi_string rec_two_strings hdr_two_strings 0 = Some (rec_two_strings, ''Not Specified'')"
proof -
  have a: "string_area rec_two_strings hdr_two_strings [[0x41, 0x42], [0x43]]"
    by (simp add: string_area_def rec_two_strings_def hdr_two_strings_def)
  show ?thesis
    using a dmi_string_sentinels [of rec_two_strings hdr_two_strings "[[0x41, 0x42], [0x43]]" 3]
    by (simp add: bad_index_def)
qed

subsection \<open>Memory size formatting\<close>



lemma low_digits:
  fixes n :: nat
  shows "(\<forall>k<j. (n div 1024 ^ k) mod 1024 = 0) \<Longrightarrow> 1024 ^ j dvd n"
proof (induction j)
  case 0
  show ?case by simp
next
  case (Suc j)
  then have d: "1024 ^ j dvd n" by simp
  then obtain q where q: "n = 1024 ^ j * q" by (auto simp: dvd_def)
  from Suc.prems have "(n div 1024 ^ j) mod 1024 = 0" by simp
  with q have "q mod 1024 = 0" by simp
  then obtain r where "q = 1024 * r" by (auto simp: mod_eq_0_iff_dvd dvd_def)
  with q show ?case by simp
qed

lemma high_digits:
  fixes n :: nat
  shows "n < 1024 ^ (j + d) \<Longrightarrow> (\<forall>k. j \<le> k \<and> k < j + d \<longrightarrow> (n div 1024 ^ k) mod 1024 = 0)
     \<Longrightarrow> n < 1024 ^ j"
proof (induction d)
  case 0
  then show ?case by simp
next
  case (Suc d)
  have "(n div 1024 ^ (j + d)) mod 1024 = 0" using Suc.prems(2) by simp
  moreover have "n div 1024 ^ (j + d) < 1024"
    using Suc.prems(1) by (simp add: less_mult_imp_div_less mult.commute)
  ultimately have "n div 1024 ^ (j + d) = 0" by simp
  then have "n < 1024 ^ (j + d)" by (simp add: div_eq_0_iff)
  then show ?case using Suc.IH Suc.prems(2) by simp
qed

lemma val64_bound: "val64 code < 1024 ^ 7"
proof -
  have "unat (u64_l code) < 2 ^ 32" "unat (u64_h code) < 2 ^ 32"
    using unsigned_less [of "u64_l code"] unsigned_less [of "u64_h code"] by simp_all
  then show ?thesis by (simp add: val64_def)
qed



lemma val64_or: "val64 code = unat (u64_l code) OR push_bit 32 (unat (u64_h code))"
proof -
  have "unat (u64_l code) + push_bit 32 (unat (u64_h code))
        = unat (u64_l code) OR push_bit 32 (unat (u64_h code))"
    by (rule disjunctive_add) (auto simp: bit_simps dest: bit_imp_le_length)
  then show ?thesis by (simp add: val64_def push_bit_eq_mult)
qed

lemma group_bits: "group10 code k = take_bit 10 (drop_bit (10 * k) (val64 code))"
  by (simp add: group10_def take_bit_eq_mod drop_bit_eq_div power_mult)

lemma m3ff: "(0x3FF :: u32) = mask 10" by (simp add: mask_eq_exp_minus_1)
lemma m3fc: "(0x3FC :: u32) = push_bit 2 (mask 8)" by (simp add: mask_eq_exp_minus_1)

lemma split0: "unat (split code ! 0) = group10 code 0"
  unfolding group_bits val64_or split_def m3ff
  by (rule bit_eqI) (auto simp: bit_simps dest: bit_imp_le_length)

lemma split1: "unat (split code ! 1) = group10 code 1"
  unfolding group_bits val64_or split_def m3ff
  by (rule bit_eqI) (auto simp: bit_simps dest: bit_imp_le_length)

lemma split2: "unat (split code ! 2) = group10 code 2"
  unfolding group_bits val64_or split_def m3ff
  by (rule bit_eqI) (auto simp: bit_simps dest: bit_imp_le_length)

lemma split3: "unat (split code ! 3) = group10 code 3"
  unfolding group_bits val64_or split_def m3ff m3fc
  apply (rule bit_eqI) apply (auto simp: bit_simps dest: bit_imp_le_length)
  done


lemma split4: "unat (split code ! 4) = group10 code 4"
  unfolding group_bits val64_or split_def m3ff
  by (rule bit_eqI) (auto simp: bit_simps dest: bit_imp_le_length)

lemma split5: "unat (split code ! 5) = group10 code 5"
  unfolding group_bits val64_or split_def m3ff
  by (rule bit_eqI) (auto simp: bit_simps dest: bit_imp_le_length)

lemma split6: "unat (split code ! 6) = group10 code 6"
  unfolding group_bits val64_or split_def m3ff
  by (rule bit_eqI) (auto simp: bit_simps dest: bit_imp_le_length)

lemma split_group: "k < 7 \<Longrightarrow> unat (split code ! k) = group10 code k"
proof -
  assume "k < 7"
  then have "k = 0 \<or> k = 1 \<or> k = 2 \<or> k = 3 \<or> k = 4 \<or> k = 5 \<or> k = 6" by arith
  then show ?thesis
    using split0 split1 split2 split3 split4 split5 split6 by blast
qed

lemma split_zero_iff: "k < 7 \<Longrightarrow> split code ! k = 0 \<longleftrightarrow> group10 code k = 0"
  using split_group [of k code] by (simp add: unat_eq_0 [symmetric] del: unat_eq_0)

lemma group_high: "7 \<le> k \<Longrightarrow> group10 code k = 0"
proof -
  assume "7 \<le> k"
  then have "(1024::nat) ^ 7 \<le> 1024 ^ k" by (intro power_increasing) simp_all
  with val64_bound [of code] have "val64 code < 1024 ^ k" by (rule less_le_trans)
  then show ?thesis by (simp add: group10_def)
qed

lemma highest_zero:
  "(\<forall>k. 0 < k \<and> k \<le> n \<longrightarrow> sp ! k = 0) \<Longrightarrow> highest sp n = 0"
  by (induction n) auto

lemma highest_at:
  "m \<le> n \<Longrightarrow> sp ! m \<noteq> 0 \<Longrightarrow> (\<forall>k. m < k \<and> k \<le> n \<longrightarrow> sp ! k = 0) \<Longrightarrow> highest sp n = m"
proof (induction n)
  case 0
  then show ?case by simp
next
  case (Suc n)
  show ?case
  proof (cases "m = Suc n")
    case True
    with Suc.prems show ?thesis by simp
  next
    case False
    with Suc.prems have "m \<le> n" "sp ! Suc n = 0" by auto
    with Suc show ?thesis by simp
  qed
qed

lemma two_groups_value:
  assumes "\<forall>k. k \<noteq> j \<and> k \<noteq> j + 1 \<longrightarrow> group10 code k = 0"
  shows "val64 code = (group10 code j + 1024 * group10 code (j + 1)) * 1024 ^ j"
proof -
  let ?n = "val64 code"
  have "\<forall>k<j. (?n div 1024 ^ k) mod 1024 = 0"
    using assms by (simp add: group10_def)
  then have "1024 ^ j dvd ?n" by (rule low_digits)
  then have n: "?n = (?n div 1024 ^ j) * 1024 ^ j" by simp
  let ?q = "?n div 1024 ^ j"
  have hz: "\<forall>k. j + 2 \<le> k \<and> k < (j + 2) + 7 \<longrightarrow> (?n div 1024 ^ k) mod 1024 = 0"
    using assms by (simp add: group10_def)
  have "?n < 1024 ^ ((j + 2) + 7)"
    using val64_bound [of code]
    by (metis (no_types) add.commute less_le_trans le_add1 power_increasing one_le_numeral)
  then have "?n < 1024 ^ (j + 2)" using hz by (rule high_digits)
  then have "?q < 1024 ^ 2"
    by (simp add: less_mult_imp_div_less power_add mult.commute)
  then have "?q div 1024 < 1024" by simp
  then have "?q = ?q mod 1024 + 1024 * ((?q div 1024) mod 1024)" by simp
  moreover have "(?q div 1024) mod 1024 = group10 code (j + 1)"
  proof -
    have "?n div 1024 ^ (j + 1) = ?n div (1024 ^ j * 1024)" by (simp add: mult.commute)
    also have "\<dots> = ?q div 1024" by (rule div_mult2_eq)
    finally show ?thesis by (simp add: group10_def)
  qed
  moreover have "?q mod 1024 = group10 code j" by (simp add: group10_def)
  ultimately have "?q = group10 code j + 1024 * group10 code (j + 1)" by simp
  with n show ?thesis by simp
qed


lemma memory_size_at:
  "highest (split code) 6 = i \<Longrightarrow>
   memory_size code =
     (if 0 < i \<and> split code ! (i - 1) \<noteq> 0
      then (unat (split code ! (i - 1)) + push_bit 10 (unat (split code ! i)), i - 1)
      else (unat (split code ! i), i))"
  by (simp add: memory_size_def Let_def)

lemma memory_size_two_groups:
  "(\<forall>k. k \<noteq> j \<and> k \<noteq> j + 1 \<longrightarrow> group10 code k = 0) \<longrightarrow>
     (\<exists>i. memory_size code = (group10 code i + push_bit 10 (group10 code (i + 1)), i) \<and>
          (\<forall>k<i. group10 code k = 0) \<and>
          (val64 code \<noteq> 0 \<longrightarrow> group10 code i \<noteq> 0) \<and>
          (group10 code i + push_bit 10 (group10 code (i + 1))) * 1024 ^ i = val64 code)"
proof
  assume two: "\<forall>k. k \<noteq> j \<and> k \<noteq> j + 1 \<longrightarrow> group10 code k = 0"
  let ?sp = "split code"
  let ?P = "\<lambda>i. memory_size code = (group10 code i + push_bit 10 (group10 code (i + 1)), i) \<and>
          (\<forall>k<i. group10 code k = 0) \<and>
          (val64 code \<noteq> 0 \<longrightarrow> group10 code i \<noteq> 0) \<and>
          (group10 code i + push_bit 10 (group10 code (i + 1))) * 1024 ^ i = val64 code"
  have v: "val64 code = (group10 code j + 1024 * group10 code (j + 1)) * 1024 ^ j"
    using two by (rule two_groups_value)
  have sz: "\<And>k. k < 7 \<Longrightarrow> ?sp ! k = 0 \<longleftrightarrow> group10 code k = 0"
    by (rule split_zero_iff)
  have su: "\<And>k. k < 7 \<Longrightarrow> unat (?sp ! k) = group10 code k"
    by (rule split_group)
  have low0: "\<forall>k<j. group10 code k = 0" using two by simp
  have up0: "group10 code (j + 2) = 0" using two by simp
  have above: "\<And>k. j + 1 < k \<Longrightarrow> ?sp ! k = 0 \<or> 7 \<le> k"
  proof -
    fix k assume "j + 1 < k"
    then have "group10 code k = 0" using two by simp
    then show "?sp ! k = 0 \<or> 7 \<le> k" using sz [of k] by (cases "k < 7") simp_all
  qed
  consider (none) "group10 code j = 0" "group10 code (j + 1) = 0"
    | (upper) "group10 code j = 0" "group10 code (j + 1) \<noteq> 0"
    | (lower) "group10 code j \<noteq> 0"
    by blast
  then have "\<exists>i. ?P i"
  proof cases
    case none
    with two have all0: "\<And>k. group10 code k = 0" by metis
    then have "\<forall>k. 0 < k \<and> k \<le> 6 \<longrightarrow> ?sp ! k = 0" using sz by simp
    then have "highest ?sp 6 = 0" by (rule highest_zero)
    then have m: "memory_size code = (unat (?sp ! 0), 0)"
      using memory_size_at [of code 0] by simp
    have "unat (?sp ! 0) = 0" using su [of 0] all0 by simp
    with m have m0: "memory_size code = (0, 0)" by simp
    have v0: "val64 code = 0" using v all0 by simp
    have "?P 0" using m0 v0 all0 by simp
    then show ?thesis ..
  next
    case upper
    have j6: "j + 1 < 7" using upper(2) group_high [of "j + 1" code] by (cases "j + 1 < 7") auto
    have "highest ?sp 6 = j + 1"
    proof (rule highest_at)
      show "j + 1 \<le> 6" using j6 by simp
      show "?sp ! (j + 1) \<noteq> 0" using sz [OF j6] upper by simp
      show "\<forall>k. j + 1 < k \<and> k \<le> 6 \<longrightarrow> ?sp ! k = 0" using above by fastforce
    qed
    then have "memory_size code =
         (if 0 < j + 1 \<and> ?sp ! (j + 1 - 1) \<noteq> 0
          then (unat (?sp ! (j + 1 - 1)) + push_bit 10 (unat (?sp ! (j + 1))), j + 1 - 1)
          else (unat (?sp ! (j + 1)), j + 1))"
      by (rule memory_size_at)
    moreover have "?sp ! j = 0" using sz [of j] j6 upper by simp
    ultimately have m: "memory_size code = (group10 code (j + 1), j + 1)"
      using su [OF j6] by simp
    have z: "\<forall>k<j + 1. group10 code k = 0"
    proof (intro allI impI)
      fix k assume "k < j + 1"
      then have "k < j \<or> k = j" by arith
      then show "group10 code k = 0" using low0 upper(1) by blast
    qed
    have e: "group10 code (j + 1) * 1024 ^ (j + 1) = val64 code"
      using v upper(1) by simp
    have "?P (j + 1)"
    proof (intro conjI)
      show "memory_size code = (group10 code (j + 1) + push_bit 10 (group10 code (j + 1 + 1)), j + 1)"
        using m up0 by (simp add: add.assoc)
      show "\<forall>k<j + 1. group10 code k = 0" by (rule z)
      show "val64 code \<noteq> 0 \<longrightarrow> group10 code (j + 1) \<noteq> 0" using upper(2) by simp
      show "(group10 code (j + 1) + push_bit 10 (group10 code (j + 1 + 1))) * 1024 ^ (j + 1) = val64 code"
        using e up0 by (simp add: add.assoc)
    qed
    then show ?thesis ..
  next
    case lower
    have j7: "j < 7" using lower group_high [of j code] by (cases "j < 7") auto
    have lowsp: "\<not> (0 < j \<and> ?sp ! (j - 1) \<noteq> 0)"
    proof (cases "0 < j")
      case True
      then have a: "j - 1 < j" and b: "j - 1 < 7" using j7 by simp_all
      from low0 a have "group10 code (j - 1) = 0" by blast
      then have "?sp ! (j - 1) = 0" using sz [OF b] by simp
      then show ?thesis by simp
    qed simp
    have e: "(group10 code j + push_bit 10 (group10 code (j + 1))) * 1024 ^ j = val64 code"
      using v by (simp add: push_bit_eq_mult mult.commute)
    have m: "memory_size code = (group10 code j + push_bit 10 (group10 code (j + 1)), j)"
    proof (cases "group10 code (j + 1) = 0")
      case True
      have "highest ?sp 6 = j"
      proof (rule highest_at)
        show "j \<le> 6" using j7 by simp
        show "?sp ! j \<noteq> 0" using sz [OF j7] lower by simp
        show "\<forall>k. j < k \<and> k \<le> 6 \<longrightarrow> ?sp ! k = 0"
        proof (intro allI impI)
          fix k assume k: "j < k \<and> k \<le> 6"
          then have "group10 code k = 0" using two True by (cases "k = j + 1") simp_all
          then show "?sp ! k = 0" using sz [of k] k by simp
        qed
      qed
      then have "memory_size code =
         (if 0 < j \<and> ?sp ! (j - 1) \<noteq> 0
          then (unat (?sp ! (j - 1)) + push_bit 10 (unat (?sp ! j)), j - 1)
          else (unat (?sp ! j), j))"
        by (rule memory_size_at)
      then have "memory_size code = (unat (?sp ! j), j)" by (simp only: if_not_P [OF lowsp])
      then show ?thesis using su [OF j7] True by simp
    next
      case False
      have j6: "j + 1 < 7"
        using False group_high [of "j + 1" code] by (cases "j + 1 < 7") auto
      have "highest ?sp 6 = j + 1"
      proof (rule highest_at)
        show "j + 1 \<le> 6" using j6 by simp
        show "?sp ! (j + 1) \<noteq> 0" using sz [OF j6] False by simp
        show "\<forall>k. j + 1 < k \<and> k \<le> 6 \<longrightarrow> ?sp ! k = 0" using above by fastforce
      qed
      then have "memory_size code =
         (if 0 < j + 1 \<and> ?sp ! (j + 1 - 1) \<noteq> 0
          then (unat (?sp ! (j + 1 - 1)) + push_bit 10 (unat (?sp ! (j + 1))), j + 1 - 1)
          else (unat (?sp ! (j + 1)), j + 1))"
        by (rule memory_size_at)
      moreover have "?sp ! j \<noteq> 0" using sz [OF j7] lower by simp
      ultimately show ?thesis
        using su [OF j7] su [OF j6] by simp
    qed
    have "?P j" using m low0 lower e by blast
    then show ?thesis ..
  qed
  then show "\<exists>i. memory_size code = (group10 code i + push_bit 10 (group10 code (i + 1)), i) \<and>
          (\<forall>k<i. group10 code k = 0) \<and>
          (val64 code \<noteq> 0 \<longrightarrow> group10 code i \<noteq> 0) \<and>
          (group10 code i + push_bit 10 (group10 code (i + 1))) * 1024 ^ i = val64 code"
    by simp
qed


text \<open>
  C5. \<open>dmi_print_memory_size\<close> splits the value into the 10-bit groups of the powers of
  1024. When every group other than two neighbours \<open>j\<close> and \<open>j + 1\<close> is zero, the unit
  it prints is that of the lowest non-zero group \<open>i\<close>, the number is that group plus the
  next one shifted by ten bits, and number times \<open>1024 ^ i\<close> is the value exactly. 4096
  bytes are printed as "4 kB".
\<close>

theorem dmi_print_memory_size_lowest_unit:
  "(\<forall>k<7. unat (split code ! k) = group10 code k) \<and>
   ((\<forall>k. k \<noteq> j \<and> k \<noteq> j + 1 \<longrightarrow> group10 code k = 0) \<longrightarrow>
      (\<exists>i. (\<forall>k<i. group10 code k = 0) \<and>
           (val64 code \<noteq> 0 \<longrightarrow> group10 code i \<noteq> 0) \<and>
           (group10 code i + push_bit 10 (group10 code (i + 1))) * 1024 ^ i = val64 code \<and>
           dmi_print_memory_size attr code shift =
             Pr_attr attr (dec (group10 code i + push_bit 10 (group10 code (i + 1)))
                           @ '' '' @ unit ! (i + shift)))) \<and>
   dmi_print_memory_size attr \<lparr>u64_l = 4096, u64_h = 0\<rparr> 0 = Pr_attr attr ''4 kB''"
proof (intro conjI impI allI)
  fix k :: nat assume "k < 7"
  then show "unat (split code ! k) = group10 code k" by (rule split_group)
next
  assume "\<forall>k. k \<noteq> j \<and> k \<noteq> j + 1 \<longrightarrow> group10 code k = 0"
  then obtain i where
    m: "memory_size code = (group10 code i + push_bit 10 (group10 code (i + 1)), i)"
    and rest: "\<forall>k<i. group10 code k = 0" "val64 code \<noteq> 0 \<longrightarrow> group10 code i \<noteq> 0"
      "(group10 code i + push_bit 10 (group10 code (i + 1))) * 1024 ^ i = val64 code"
    using memory_size_two_groups [of j code] by blast
  have "dmi_print_memory_size attr code shift =
        Pr_attr attr (dec (group10 code i + push_bit 10 (group10 code (i + 1)))
                      @ '' '' @ unit ! (i + shift))"
    by (simp add: dmi_print_memory_size_def m)
  with rest show "\<exists>i. (\<forall>k<i. group10 code k = 0) \<and>
           (val64 code \<noteq> 0 \<longrightarrow> group10 code i \<noteq> 0) \<and>
           (group10 code i + push_bit 10 (group10 code (i + 1))) * 1024 ^ i = val64 code \<and>
           dmi_print_memory_size attr code shift =
             Pr_attr attr (dec (group10 code i + push_bit 10 (group10 code (i + 1)))
                           @ '' '' @ unit ! (i + shift))"
    by blast
next
  have "memory_size \<lparr>u64_l = 4096, u64_h = 0\<rparr> = (4, 1)" by code_simp
  moreover have "dec 4 = ''4''" by code_simp
  ultimately show "dmi_print_memory_size attr \<lparr>u64_l = 4096, u64_h = 0\<rparr> 0 = Pr_attr attr ''4 kB''"
    by (simp add: dmi_print_memory_size_def unit_def)
qed

theorem dmi_print_memory_size_lowest_unit_witness:
  "group10 size_4096 0 = 0 \<and> group10 size_4096 1 = 4 \<and> val64 size_4096 = 4096 \<and>
   dmi_print_memory_size ''Maximum Capacity'' size_4096 0 = Pr_attr ''Maximum Capacity'' ''4 kB''"
proof -
  have v: "val64 size_4096 = 4096" by (simp add: val64_def size_4096_def)
  have hyp: "\<forall>k. k \<noteq> 1 \<and> k \<noteq> 1 + 1 \<longrightarrow> group10 size_4096 k = 0"
  proof (intro allI impI)
    fix k :: nat assume "k \<noteq> 1 \<and> k \<noteq> 1 + 1"
    then have "k = 0 \<or> 3 \<le> k" by arith
    then show "group10 size_4096 k = 0"
    proof
      assume "k = 0" then show ?thesis by (simp add: group10_def v)
    next
      assume "3 \<le> k"
      then have "(1024::nat) ^ 3 \<le> 1024 ^ k" by (intro power_increasing) simp_all
      then have "(4096::nat) < 1024 ^ k" by simp
      then show ?thesis by (simp add: group10_def v)
    qed
  qed
  have g0: "group10 size_4096 0 = 0" and g1: "group10 size_4096 1 = 4"
    by (simp_all add: group10_def v)
  from dmi_print_memory_size_lowest_unit [of size_4096 1 "''Maximum Capacity''" 0] hyp
  obtain i where i: "\<forall>k<i. group10 size_4096 k = 0"
      "val64 size_4096 \<noteq> 0 \<longrightarrow> group10 size_4096 i \<noteq> 0"
    and p: "dmi_print_memory_size ''Maximum Capacity'' size_4096 0 =
             Pr_attr ''Maximum Capacity''
               (dec (group10 size_4096 i + push_bit 10 (group10 size_4096 (i + 1)))
                @ '' '' @ unit ! (i + 0))"
    by blast
  have "i = 1"
  proof (rule ccontr)
    assume "i \<noteq> 1"
    then have "i = 0 \<or> 1 < i" by arith
    then show False using i g0 g1 v by auto
  qed
  moreover have "group10 size_4096 (Suc (Suc 0)) = 0" by (simp add: group10_def v)
  moreover have "dec 4 = ''4''" by code_simp
  ultimately have "dmi_print_memory_size ''Maximum Capacity'' size_4096 0
        = Pr_attr ''Maximum Capacity'' ''4 kB''"
    using p g1 by (simp add: unit_def)
  then show ?thesis using g0 g1 v by simp
qed

subsection \<open>Processor family\<close>

text \<open>
  The binary search over \<open>family2\<close> terminates and returns the name listed for a code,
  or the out-of-spec marker for a code that the table does not list.
\<close>

lemma ascending_sorted: "ascending xs \<Longrightarrow> sorted_wrt (<) xs"
proof (induction xs rule: ascending.induct)
  case (1 x y zs)
  then have "sorted_wrt (<) (y # zs)" "x < y" by simp_all
  then show ?case by auto
qed simp_all


lemma family2_ascending: "ascending (map fst family2)"
  by (simp add: family2_def)



lemma search_missing:
  "low \<le> high \<Longrightarrow> \<forall>k. low \<le> k \<and> k \<le> high \<longrightarrow> fst (tab ! k) \<noteq> code \<Longrightarrow>
   family_search tab code low high = Some out_of_spec"
proof (induction "high - low" arbitrary: low high rule: less_induct)
  case less
  let ?i = "(low + high) div 2"
  have i: "low \<le> ?i" "?i \<le> high" using less.prems(1) by simp_all
  then have ne: "fst (tab ! ?i) \<noteq> code" using less.prems(2) by blast
  show ?case
  proof (cases "low = high")
    case True
    then show ?thesis using ne by (subst family_search.simps) (simp add: Let_def)
  next
    case False
    then have lt: "low < high" using less.prems(1) by simp
    show ?thesis
    proof (cases "code < fst (tab ! ?i)")
      case True
      have "family_search tab code low ?i = Some out_of_spec"
      proof (rule less.hyps)
        show "?i - low < high - low" using lt by auto
        show "low \<le> ?i" by (rule i(1))
        show "\<forall>k. low \<le> k \<and> k \<le> ?i \<longrightarrow> fst (tab ! k) \<noteq> code"
          using less.prems(2) i(2) by auto
      qed
      then show ?thesis using ne False True
        by (subst family_search.simps) (simp add: Let_def)
    next
      case ge: False
      have "family_search tab code (?i + 1) high = Some out_of_spec"
      proof (rule less.hyps)
        show "high - (?i + 1) < high - low" using lt by auto
        show "?i + 1 \<le> high" using lt by auto
        show "\<forall>k. ?i + 1 \<le> k \<and> k \<le> high \<longrightarrow> fst (tab ! k) \<noteq> code"
          using less.prems(2) i(1) by auto
      qed
      then show ?thesis using ne False ge
        by (subst family_search.simps) (simp add: Let_def)
    qed
  qed
qed


lemma search_found:
  assumes sorted: "sorted_wrt (<) (map fst tab)"
  shows "low \<le> k \<Longrightarrow> k \<le> high \<Longrightarrow> high < length tab \<Longrightarrow> fst (tab ! k) = code \<Longrightarrow>
         family_search tab code low high = Some (snd (tab ! k))"
proof (induction "high - low" arbitrary: low high rule: less_induct)
  case less
  let ?i = "(low + high) div 2"
  have i: "low \<le> ?i" "?i \<le> high" using less.prems by simp_all
  have ord: "\<And>a b. a < b \<Longrightarrow> b < length tab \<Longrightarrow> fst (tab ! a) < fst (tab ! b)"
  proof -
    fix a b assume ab: "a < b" "b < length tab"
    have "map fst tab ! a < map fst tab ! b"
      using sorted ab(1) by (rule sorted_wrt_nth_less) (simp add: ab(2))
    then show "fst (tab ! a) < fst (tab ! b)" using ab by simp
  qed
  have ilt: "?i < length tab" using i(2) less.prems(3) by simp
  have klt: "k < length tab" using less.prems(2,3) by simp
  show ?case
  proof (cases "fst (tab ! ?i) = code")
    case True
    have "?i = k"
    proof (rule ccontr)
      assume "?i \<noteq> k"
      then have "?i < k \<or> k < ?i" by arith
      then have "fst (tab ! ?i) \<noteq> fst (tab ! k)"
        using ord [of ?i k] ord [of k ?i] ilt klt by fastforce
      then show False using True less.prems(4) by simp
    qed
    then show ?thesis using True
      by (subst family_search.simps) (simp add: Let_def)
  next
    case ne: False
    then have ik: "?i \<noteq> k" using less.prems(4) by auto
    have lt: "low < high"
    proof (rule ccontr)
      assume "\<not> low < high"
      then have "?i = k" using less.prems(1,2) by simp
      then show False using ik by simp
    qed
    show ?thesis
    proof (cases "code < fst (tab ! ?i)")
      case True
      have "k < ?i"
      proof (rule ccontr)
        assume "\<not> k < ?i"
        then have "?i < k" using ik by arith
        then have "fst (tab ! ?i) < fst (tab ! k)" using ord klt by blast
        then show False using True less.prems(4) by simp
      qed
      have "family_search tab code low ?i = Some (snd (tab ! k))"
      proof (rule less.hyps)
        show "?i - low < high - low" using lt by auto
        show "low \<le> k" by (rule less.prems(1))
        show "k \<le> ?i" using \<open>k < ?i\<close> by simp
        show "?i < length tab" by (rule ilt)
        show "fst (tab ! k) = code" by (rule less.prems(4))
      qed
      then show ?thesis using ne lt True
        by (subst family_search.simps) (simp add: Let_def)
    next
      case ge: False
      have "?i < k"
      proof (rule ccontr)
        assume "\<not> ?i < k"
        then have "k < ?i" using ik by arith
        then have "fst (tab ! k) < fst (tab ! ?i)" using ord ilt by blast
        then show False using ge ne less.prems(4) by simp
      qed
      have "family_search tab code (?i + 1) high = Some (snd (tab ! k))"
      proof (rule less.hyps)
        show "high - (?i + 1) < high - low" using lt by auto
        show "?i + 1 \<le> k" using \<open>?i < k\<close> by simp
        show "k \<le> high" by (rule less.prems(2))
        show "high < length tab" by (rule less.prems(3))
        show "fst (tab ! k) = code" by (rule less.prems(4))
      qed
      then show ?thesis using ne lt ge
        by (subst family_search.simps) (simp add: Let_def)
    qed
  qed
qed


lemma family2_sorted: "sorted_wrt (<) (map fst family2)"
  using family2_ascending by (rule ascending_sorted)


lemma family2_length: "length family2 = 214"
  by (simp add: family2_def)


lemma family2_found:
  assumes "(code, name) \<in> set family2"
  shows "family_search family2 code 0 (length family2 - 1) = Some name"
proof -
  from assms obtain k where k: "k < length family2" "family2 ! k = (code, name)"
    by (auto simp: in_set_conv_nth)
  have "family_search family2 code 0 (length family2 - 1) = Some (snd (family2 ! k))"
    using family2_sorted
  proof (rule search_found)
    show "0 \<le> k" by simp
    show "k \<le> length family2 - 1" using k(1) by simp
    show "length family2 - 1 < length family2" by (simp add: family2_length)
    show "fst (family2 ! k) = code" using k(2) by simp
  qed
  then show ?thesis using k(2) by simp
qed


lemma family2_missing:
  assumes "code \<notin> fst ` set family2"
  shows "family_search family2 code 0 (length family2 - 1) = Some out_of_spec"
proof (rule search_missing)
  show "0 \<le> length family2 - 1" by simp
  show "\<forall>k. 0 \<le> k \<and> k \<le> length family2 - 1 \<longrightarrow> fst (family2 ! k) \<noteq> code"
  proof (intro allI impI)
    fix k assume "0 \<le> k \<and> k \<le> length family2 - 1"
    then have "k < length family2" by (simp add: family2_length)
    then have "family2 ! k \<in> set family2" by simp
    then have "fst (family2 ! k) \<in> fst ` set family2" by (rule imageI)
    then show "fst (family2 ! k) \<noteq> code" using assms by auto
  qed
qed



text \<open>
  C9. The code does not do what the claim says for the family code 0xBE. The needles
  \<open>u"Intel"\<close> and \<open>u"AMD"\<close> are UTF-16 literals, which \<open>strstr\<close> and \<open>strncasecmp\<close> read
  as the one-letter strings "I" and "A". The manufacturer "VIA" neither contains nor
  starts with "Intel" or "AMD", yet the function returns "Core 2"; "Apple" gives "K7";
  and "intel", which starts with "Intel" when the case of the letters is ignored, gives
  "Core 2 or K7".
\<close>

theorem dmi_processor_family_0xBE_literals:
  "c_string_at (u_literal ''Intel'') = ''I'' \<and>
   c_string_at (u_literal ''AMD'') = ''A'' \<and>
   \<not> names_vendor ''VIA'' ''Intel'' \<and> \<not> names_vendor ''VIA'' ''AMD'' \<and>
   dmi_processor_family (rec_proc ''VIA'') hdr_proc 0x0208
     = Some (rec_proc ''VIA'', ''Core 2'') \<and>
   \<not> names_vendor ''Apple'' ''Intel'' \<and> \<not> names_vendor ''Apple'' ''AMD'' \<and>
   dmi_processor_family (rec_proc ''Apple'') hdr_proc 0x0208
     = Some (rec_proc ''Apple'', ''K7'') \<and>
   names_vendor ''intel'' ''Intel'' \<and>
   dmi_processor_family (rec_proc ''intel'') hdr_proc 0x0208
     = Some (rec_proc ''intel'', ''Core 2 or K7'')"
proof (intro conjI)
  show "c_string_at (u_literal ''Intel'') = ''I''" by code_simp
  show "c_string_at (u_literal ''AMD'') = ''A''" by code_simp
  show "\<not> names_vendor ''VIA'' ''Intel''" by code_simp
  show "\<not> names_vendor ''VIA'' ''AMD''" by code_simp
  show "dmi_processor_family (rec_proc ''VIA'') hdr_proc 0x0208
          = Some (rec_proc ''VIA'', ''Core 2'')"
    by code_simp
  show "\<not> names_vendor ''Apple'' ''Intel''" by code_simp
  show "\<not> names_vendor ''Apple'' ''AMD''" by code_simp
  show "dmi_processor_family (rec_proc ''Apple'') hdr_proc 0x0208
          = Some (rec_proc ''Apple'', ''K7'')"
    by code_simp
  show "names_vendor ''intel'' ''Intel''" by code_simp
  show "dmi_processor_family (rec_proc ''intel'') hdr_proc 0x0208
          = Some (rec_proc ''intel'', ''Core 2 or K7'')"
    by code_simp
qed

theorem dmi_processor_family_0xBE_literals_witness:
  "dmi_processor_family (rec_proc ''VIA'') hdr_proc 0x0208
     = Some (rec_proc ''VIA'', ''Core 2'')"
  using dmi_processor_family_0xBE_literals by (elim conjE)

subsection \<open>Entry points\<close>

lemma smbios_decode_ret:
  "snd (smbios_decode opt buf flags) =
     (if buf ! 0x05 \<le> 0x20 \<and> checksum buf (unat (buf ! 0x05))
         \<and> take 5 (drop 0x10 buf) = take 5 (u_literal ''_DMI_'')
         \<and> checksum (drop 0x10 buf) 0x0F
      then 1 else 0)"
proof (cases "buf ! 0x05 > 0x20")
  case True
  then have "\<not> buf ! 0x05 \<le> 0x20" by (simp only: not_le)
  then show ?thesis using True by (simp only: smbios_decode_def if_True snd_conv simp_thms if_False)
next
  case False
  then have le: "buf ! 0x05 \<le> 0x20" by (simp only: not_less)
  show ?thesis
  proof (cases "checksum buf (unat (buf ! 0x05))
         \<and> take 5 (drop 0x10 buf) = take 5 (u_literal ''_DMI_'')
         \<and> checksum (drop 0x10 buf) 0x0F")
    case True
    then show ?thesis using False le
      by (simp only: smbios_decode_def if_True snd_conv simp_thms if_False de_Morgan_conj not_not)
  next
    case c: False
    then have "\<not> checksum buf (unat (buf ! 0x05))
              \<or> take 5 (drop 0x10 buf) \<noteq> take 5 (u_literal ''_DMI_'')
              \<or> \<not> checksum (drop 0x10 buf) 0x0F" by blast
    then show ?thesis using False le c
      by (simp only: smbios_decode_def if_True snd_conv simp_thms if_False)
  qed
qed












lemma entry_sm_rejected: "snd (smbios_decode default_opt entry_sm 0) = 0"
  unfolding smbios_decode_ret by code_simp








text \<open>
  C6. The code does not do what the claim says. \<open>entry_sm\<close> has a declared length of
  0x1F, both of its regions sum to 0 modulo 256 and its five bytes at offset 0x10 are
  "_DMI_", yet \<open>smbios_decode\<close> returns 0: \<open>memcmp\<close> compares these bytes with the first
  five bytes of the UTF-16 literal \<open>u"_DMI_"\<close>, which are 5F 00 44 00 4D.
\<close>

theorem smbios_decode_anchor_literal:
  "entry_sm ! 0x05 \<le> 0x20 \<and>
   sum_list (map unat (take (unat (entry_sm ! 0x05)) entry_sm)) mod 256 = 0 \<and>
   take 5 (drop 0x10 entry_sm) = map of_char ''_DMI_'' \<and>
   sum_list (map unat (take 0x0F (drop 0x10 entry_sm))) mod 256 = 0 \<and>
   take 5 (u_literal ''_DMI_'') = [0x5F, 0x00, 0x44, 0x00, 0x4D] \<and>
   snd (smbios_decode default_opt entry_sm 0) = 0"
proof (intro conjI)
  show "entry_sm ! 0x05 \<le> 0x20" by code_simp
  show "sum_list (map unat (take (unat (entry_sm ! 0x05)) entry_sm)) mod 256 = 0"
    by code_simp
  show "take 5 (drop 0x10 entry_sm) = map of_char ''_DMI_''" by code_simp
  show "sum_list (map unat (take 0x0F (drop 0x10 entry_sm))) mod 256 = 0" by code_simp
  show "take 5 (u_literal ''_DMI_'') = [0x5F, 0x00, 0x44, 0x00, 0x4D]" by code_simp
  show "snd (smbios_decode default_opt entry_sm 0) = 0" by (rule entry_sm_rejected)
qed

theorem smbios_decode_anchor_literal_witness:
  "snd (smbios_decode default_opt entry_sm 0) = 0"
  using smbios_decode_anchor_literal by (elim conjE)









subsection \<open>Physical Memory Array\<close>

lemma rd_take: "p < n \<Longrightarrow> rd (take n buf) p = rd buf p"
  by (simp add: rd_def)

lemma WORD_take: "p + 1 < n \<Longrightarrow> WORD (take n buf) p = WORD buf p"
  by (simp add: WORD_def rd_take)

lemma DWORD_take: "p + 3 < n \<Longrightarrow> DWORD (take n buf) p = DWORD buf p"
  by (simp add: DWORD_def rd_take)

lemma QWORD_take: "p + 7 < n \<Longrightarrow> QWORD (take n buf) p = QWORD buf p"
  by (simp add: QWORD_def DWORD_take)

lemma rd_in: "p < length buf \<Longrightarrow> rd buf p = Some (buf ! p)"
  by (simp add: rd_def)

lemma WORD_in: "p + 1 < length buf \<Longrightarrow> \<exists>w. WORD buf p = Some w"
  by (simp add: WORD_def rd_in)

lemma DWORD_in: "p + 3 < length buf \<Longrightarrow> \<exists>w. DWORD buf p = Some w"
  by (simp add: DWORD_def rd_in)

lemma QWORD_in: "p + 7 < length buf \<Longrightarrow> \<exists>w. QWORD buf p = Some w"
  using DWORD_in [of p buf] DWORD_in [of "p + 4" buf] by (auto simp: QWORD_def)

lemma decode_16_short:
  "length_h h < 0x0F \<Longrightarrow> dmi_decode_16 opt buf h = Some [Pr_handle_name ''Physical Memory Array'']"
  by (simp add: dmi_decode_16_def)

lemma decode_16_take:
  assumes n: "data_h h + unat (length_h h) \<le> n"
  shows "dmi_decode_16 opt (take n buf) h = dmi_decode_16 opt buf h"
proof (cases "length_h h < 0x0F")
  case True
  then show ?thesis by (simp add: decode_16_short)
next
  case False
  then have L: "15 \<le> unat (length_h h)" by (simp add: word_less_nat_alt)
  let ?d = "data_h h"
  have r: "rd (take n buf) (?d + 0x04) = rd buf (?d + 0x04)"
      "rd (take n buf) (?d + 0x05) = rd buf (?d + 0x05)"
      "rd (take n buf) (?d + 0x06) = rd buf (?d + 0x06)"
      "DWORD (take n buf) (?d + 0x07) = DWORD buf (?d + 0x07)"
      "WORD (take n buf) (?d + 0x0B) = WORD buf (?d + 0x0B)"
      "WORD (take n buf) (?d + 0x0D) = WORD buf (?d + 0x0D)"
    using n L by (simp_all add: rd_take WORD_take DWORD_take)
  show ?thesis
  proof (cases "length_h h < 0x17")
    case True
    then show ?thesis using False by (simp add: dmi_decode_16_def Let_def r)
  next
    case long: False
    then have "23 \<le> unat (length_h h)" by (simp add: word_less_nat_alt)
    then have "QWORD (take n buf) (?d + 0x0F) = QWORD buf (?d + 0x0F)"
      using n by (simp add: QWORD_take)
    then show ?thesis using False long
      by (simp add: dmi_decode_16_def Let_def r cong: if_cong)
  qed
qed

lemma decode_16_total:
  assumes n: "data_h h + unat (length_h h) \<le> length buf"
  shows "\<exists>outs. dmi_decode_16 opt buf h = Some outs"
proof -
  have "dmi_decode_16 opt (take (data_h h + unat (length_h h)) buf) h = dmi_decode_16 opt buf h"
    by (rule decode_16_take) simp
  show ?thesis
  proof (cases "length_h h < 0x0F")
    case True
    then show ?thesis by (simp add: decode_16_short)
  next
    case False
    then have L: "15 \<le> unat (length_h h)" by (simp add: word_less_nat_alt)
    let ?d = "data_h h"
    obtain cap eh nd where r:
        "rd buf (?d + 0x04) = Some (buf ! (?d + 0x04))"
        "rd buf (?d + 0x05) = Some (buf ! (?d + 0x05))"
        "rd buf (?d + 0x06) = Some (buf ! (?d + 0x06))"
        "DWORD buf (?d + 0x07) = Some cap"
        "WORD buf (?d + 0x0B) = Some eh"
        "WORD buf (?d + 0x0D) = Some nd"
      using n L DWORD_in [of "?d + 0x07" buf] WORD_in [of "?d + 0x0B" buf]
        WORD_in [of "?d + 0x0D" buf]
      by (auto simp: rd_in)
    show ?thesis
    proof (cases "length_h h < 0x17")
      case True
      then show ?thesis using False by (simp add: dmi_decode_16_def Let_def r)
    next
      case long: False
      then have "23 \<le> unat (length_h h)" by (simp add: word_less_nat_alt)
      then obtain q where "QWORD buf (?d + 0x0F) = Some q"
        using n QWORD_in [of "?d + 0x0F" buf] by auto
      then show ?thesis using False long
        by (simp add: dmi_decode_16_def Let_def r cong: if_cong)
    qed
  qed
qed

lemma decode_16_unknown:
  assumes "0x0F \<le> length_h h" "length_h h < 0x17"
    and "DWORD buf (data_h h + 0x07) = Some 0x80000000"
    and "dmi_decode_16 opt buf h = Some outs"
  shows "Pr_attr ''Maximum Capacity'' ''Unknown'' \<in> set outs"
  using assms
  by (auto simp: dmi_decode_16_def Let_def bind_eq_Some_conv not_less [symmetric]
           split: if_splits)

text \<open>
  C8. For a Physical Memory Array record whose declared length lies inside the
  buffer, \<open>case 16\<close> of \<open>dmi_decode\<close> reads no byte beyond the declared length: it
  returns the same output when every byte after the declared length is cut off, and it
  never reads outside the buffer. A record shorter than 0x0F prints the handle name and no
  field. When the capacity DWORD at offset 0x07 is 0x80000000 and the declared length is
  below 0x17, the output holds the attribute ``Maximum Capacity: Unknown'' and is the same
  when the buffer ends at offset 0x0F, where the extended capacity would start.
\<close>

theorem dmi_decode_16_declared_length:
  "data_h h + unat (length_h h) \<le> length buf \<longrightarrow>
     dmi_decode_16 opt (declared_bytes buf h) h = dmi_decode_16 opt buf h \<and>
     (\<exists>outs. dmi_decode_16 opt buf h = Some outs) \<and>
     (length_h h < 0x0F \<longrightarrow>
        dmi_decode_16 opt buf h = Some [Pr_handle_name ''Physical Memory Array'']) \<and>
     (0x0F \<le> length_h h \<and> length_h h < 0x17 \<and>
      DWORD buf (data_h h + 0x07) = Some 0x80000000 \<longrightarrow>
        (\<exists>outs. dmi_decode_16 opt buf h = Some outs \<and>
                Pr_attr ''Maximum Capacity'' ''Unknown'' \<in> set outs \<and>
                dmi_decode_16 opt (take (data_h h + 0x0F) buf) h = Some outs))"
proof (intro impI conjI)
  assume n: "data_h h + unat (length_h h) \<le> length buf"
  show "dmi_decode_16 opt (declared_bytes buf h) h = dmi_decode_16 opt buf h"
    unfolding declared_bytes_def by (rule decode_16_take) simp
  show "\<exists>outs. dmi_decode_16 opt buf h = Some outs"
    using n by (rule decode_16_total)
  show "dmi_decode_16 opt buf h = Some [Pr_handle_name ''Physical Memory Array'']"
    if "length_h h < 0x0F" using that by (rule decode_16_short)
  show "\<exists>outs. dmi_decode_16 opt buf h = Some outs \<and>
          Pr_attr ''Maximum Capacity'' ''Unknown'' \<in> set outs \<and>
          dmi_decode_16 opt (take (data_h h + 0x0F) buf) h = Some outs"
    if u: "0x0F \<le> length_h h \<and> length_h h < 0x17 \<and>
           DWORD buf (data_h h + 0x07) = Some 0x80000000"
  proof -
    obtain outs where o: "dmi_decode_16 opt buf h = Some outs"
      using decode_16_total [OF n] by blast
    have m: "Pr_attr ''Maximum Capacity'' ''Unknown'' \<in> set outs"
      using u o decode_16_unknown by blast
    let ?h = "h\<lparr>length_h := 0x0F\<rparr>"
    have ge: "\<not> length_h h < 0x0F" and lt: "length_h h < 0x17"
      using u by (simp_all add: not_less)
    have same: "dmi_decode_16 opt b ?h = dmi_decode_16 opt b h" for b
      by (simp add: dmi_decode_16_def Let_def ge lt cong: if_cong)
    have "dmi_decode_16 opt (take (data_h ?h + unat (length_h ?h)) buf) ?h
            = dmi_decode_16 opt buf ?h"
      by (rule decode_16_take) simp
    then have "dmi_decode_16 opt (take (data_h h + 0x0F) buf) h = dmi_decode_16 opt buf h"
      by (simp add: same)
    then show ?thesis using o m by simp
  qed
qed

theorem dmi_decode_16_declared_length_witness:
  "dmi_decode_16 default_opt (declared_bytes rec_array hdr_array) hdr_array
     = dmi_decode_16 default_opt rec_array hdr_array \<and>
   (\<exists>outs. dmi_decode_16 default_opt rec_array hdr_array = Some outs \<and>
           Pr_attr ''Maximum Capacity'' ''Unknown'' \<in> set outs \<and>
           dmi_decode_16 default_opt (take 0x0F rec_array) hdr_array = Some outs) \<and>
   dmi_decode_16 default_opt rec_array_short hdr_array_short
     = Some [Pr_handle_name ''Physical Memory Array'']"
proof -
  have a: "data_h hdr_array + unat (length_h hdr_array) \<le> length rec_array"
    by (simp add: hdr_array_def rec_array_def)
  have b: "0x0F \<le> length_h hdr_array \<and> length_h hdr_array < 0x17 \<and>
           DWORD rec_array (data_h hdr_array + 0x07) = Some 0x80000000"
    by (simp add: hdr_array_def rec_array_def DWORD_def rd_def)
  have c: "data_h hdr_array_short + unat (length_h hdr_array_short) \<le> length rec_array_short"
    by (simp add: hdr_array_short_def rec_array_short_def)
  have d: "length_h hdr_array_short < 0x0F"
    by (simp add: hdr_array_short_def)
  have e: "data_h hdr_array + 0x0F = 0x0F"
    by (simp add: hdr_array_def)
  note t = dmi_decode_16_declared_length [of hdr_array rec_array default_opt, rule_format, OF a]
  note s = dmi_decode_16_declared_length
             [of hdr_array_short rec_array_short default_opt, rule_format, OF c]
  from t have t1: "dmi_decode_16 default_opt (declared_bytes rec_array hdr_array) hdr_array
     = dmi_decode_16 default_opt rec_array hdr_array" by (rule conjunct1)
  from t have "0x0F \<le> length_h hdr_array \<and> length_h hdr_array < 0x17 \<and>
      DWORD rec_array (data_h hdr_array + 0x07) = Some 0x80000000 \<longrightarrow>
        (\<exists>outs. dmi_decode_16 default_opt rec_array hdr_array = Some outs \<and>
                Pr_attr ''Maximum Capacity'' ''Unknown'' \<in> set outs \<and>
                dmi_decode_16 default_opt (take (data_h hdr_array + 0x0F) rec_array) hdr_array
                  = Some outs)"
    by (elim conjE)
  with b have t2: "\<exists>outs. dmi_decode_16 default_opt rec_array hdr_array = Some outs \<and>
           Pr_attr ''Maximum Capacity'' ''Unknown'' \<in> set outs \<and>
           dmi_decode_16 default_opt (take 0x0F rec_array) hdr_array = Some outs"
    unfolding e by (rule rev_mp)
  from s have "length_h hdr_array_short < 0x0F \<longrightarrow>
        dmi_decode_16 default_opt rec_array_short hdr_array_short
          = Some [Pr_handle_name ''Physical Memory Array'']"
    by (elim conjE)
  with d have s1: "dmi_decode_16 default_opt rec_array_short hdr_array_short
          = Some [Pr_handle_name ''Physical Memory Array'']"
    by (rule rev_mp)
  from t1 t2 s1 show ?thesis by (intro conjI)
qed

subsection \<open>Table walker: the end of a record\<close>

lemma next_scan_pair: "buf ! p = 0 \<Longrightarrow> buf ! (p + 1) = 0 \<Longrightarrow> next_scan buf len p = p"
  by (subst next_scan.simps) simp

lemma next_scan_step:
  "p + 1 < len \<Longrightarrow> buf ! p \<noteq> 0 \<or> buf ! (p + 1) \<noteq> 0
   \<Longrightarrow> next_scan buf len p = next_scan buf len (p + 1)"
  by (subst next_scan.simps) simp

lemma next_scan_first_pair:
  assumes "start \<le> p" "p + 1 < len" "buf ! p = 0" "buf ! (p + 1) = 0"
    and "\<forall>q. start \<le> q \<and> q < p \<longrightarrow> buf ! q \<noteq> 0 \<or> buf ! (q + 1) \<noteq> 0"
  shows "next_scan buf len start = p"
  using assms
proof (induction "p - start" arbitrary: start)
  case 0
  then have "start = p" by simp
  then show ?case using "0.prems" by (simp add: next_scan_pair)
next
  case (Suc n)
  then have lt: "start < p" by simp
  then have "start + 1 < len" using Suc.prems by simp
  moreover have "buf ! start \<noteq> 0 \<or> buf ! (start + 1) \<noteq> 0"
    using Suc.prems lt by blast
  ultimately have "next_scan buf len start = next_scan buf len (start + 1)"
    by (rule next_scan_step)
  moreover have "next_scan buf len (start + 1) = p"
  proof (rule Suc.hyps(1))
    show "n = p - (start + 1)" using Suc.hyps(2) by simp
    show "start + 1 \<le> p" using lt by simp
    show "\<forall>q. start + 1 \<le> q \<and> q < p \<longrightarrow> buf ! q \<noteq> 0 \<or> buf ! (q + 1) \<noteq> 0"
      using Suc.prems by simp
  qed (use Suc.prems in simp_all)
  ultimately show ?case by simp
qed

lemma next_scan_result:
  "start \<le> next_scan buf len start \<and>
   (next_scan buf len start + 1 < len \<longrightarrow>
      buf ! next_scan buf len start = 0 \<and> buf ! (next_scan buf len start + 1) = 0) \<and>
   (\<forall>q. start \<le> q \<and> q < next_scan buf len start \<longrightarrow> buf ! q \<noteq> 0 \<or> buf ! (q + 1) \<noteq> 0)"
proof (induction buf len start rule: next_scan.induct)
  case (1 buf len nxt)
  show ?case
  proof (cases "nxt + 1 < len \<and> (buf ! nxt \<noteq> 0 \<or> buf ! (nxt + 1) \<noteq> 0)")
    case True
    then have eq: "next_scan buf len nxt = next_scan buf len (nxt + 1)"
      by (simp add: next_scan_step)
    note ih = "1.IH" [OF True]
    have "\<forall>q. nxt \<le> q \<and> q < next_scan buf len (nxt + 1)
             \<longrightarrow> buf ! q \<noteq> 0 \<or> buf ! (q + 1) \<noteq> 0"
    proof (intro allI impI)
      fix q assume q: "nxt \<le> q \<and> q < next_scan buf len (nxt + 1)"
      show "buf ! q \<noteq> 0 \<or> buf ! (q + 1) \<noteq> 0"
      proof (cases "q = nxt")
        case True
        then show ?thesis using \<open>nxt + 1 < len \<and> (buf ! nxt \<noteq> 0 \<or> buf ! (nxt + 1) \<noteq> 0)\<close>
          by simp
      next
        case False
        then have "nxt + 1 \<le> q" using q by simp
        then show ?thesis using ih q by blast
      qed
    qed
    then show ?thesis using ih unfolding eq by simp
  next
    case False
    then have eq: "next_scan buf len nxt = nxt"
      by (subst next_scan.simps) (simp only: if_False)
    show ?thesis unfolding eq using False by auto
  qed
qed

lemma decode_step_data:
  assumes "4 \<le> length_h (to_dmi_header (buf_w st) (data_w st))"
    and "\<not> (quiet (opt_w st) \<and> type_h (to_dmi_header (buf_w st) (data_w st)) = 127)"
  shows "data_w (state_of (decode_step D vendor len ver flags st))
           = next_record (buf_w st) len (to_dmi_header (buf_w st) (data_w st))"
proof -
  have c1: "(length_h (to_dmi_header (buf_w st) (data_w st)) < 4) = False"
    using assms(1) by (simp add: not_less)
  have c2: "(quiet (opt_w st) \<and> type_h (to_dmi_header (buf_w st) (data_w st)) = 127) = False"
    using assms(2) by simp
  show ?thesis
    by (simp add: decode_step_def Let_def split_beta c1 c2)
qed

lemma first_pass_next:
  assumes "(i < unat num \<or> num = 0) \<and> data + 4 \<le> len"
    and "4 \<le> length_h (to_dmi_header buf data)"
    and "\<not> (type_h (to_dmi_header buf data) = 127
            \<and> flags_o opt AND (FLAG_QUIET OR FLAG_STOP_AT_EOT) \<noteq> 0)"
    and "next_record buf len (to_dmi_header buf data) \<le> len"
    and "\<not> (type_h (to_dmi_header buf data) = 1 \<and> length_h (to_dmi_header buf data) \<ge> 6)"
  shows "first_pass opt buf len num i data
           = first_pass opt buf len num (i + 1) (next_record buf len (to_dmi_header buf data))"
proof -
  have c0: "((i < unat num \<or> num = 0) \<and> data + 4 \<le> len) = True"
    using assms(1) by simp
  have c1: "(length_h (to_dmi_header buf data) < 4
             \<or> (type_h (to_dmi_header buf data) = 127
                \<and> flags_o opt AND (FLAG_QUIET OR FLAG_STOP_AT_EOT) \<noteq> 0)) = False"
    using assms(2,3) by (simp add: not_less)
  have c2: "(len < next_record buf len (to_dmi_header buf data)) = False"
    using assms(4) by simp
  have c3: "(type_h (to_dmi_header buf data) = 1 \<and> 6 \<le> length_h (to_dmi_header buf data))
              = False"
    using assms(5) by simp
  show ?thesis
    by (subst first_pass.simps) (simp only: Let_def c0 c1 c2 c3 if_True if_False)
qed

text \<open>
  C1. The end of a record is found by the scan for the first pair of zero bytes from
  \<open>data + length\<close> on, plus two: when such a pair lies in the table, \<open>next_record\<close> is
  the offset two bytes after the first one; when the two bytes right after the declared
  length are zero, it is \<open>data + length + 2\<close>; and whenever the computed end lies in the
  table, the two bytes before it are the first pair of zero bytes. Both passes continue
  at this offset: it is \<open>data\<close> after a turn of the second loop that gets past the length
  check and the end-of-table check, and the first pass goes on from it.
\<close>

theorem next_record_double_zero:
  "(\<forall>p. data_h h + unat (length_h h) \<le> p \<and> p + 1 < len \<and> buf ! p = 0 \<and> buf ! (p + 1) = 0
        \<and> (\<forall>q. data_h h + unat (length_h h) \<le> q \<and> q < p
                 \<longrightarrow> buf ! q \<noteq> 0 \<or> buf ! (q + 1) \<noteq> 0)
        \<longrightarrow> next_record buf len h = p + 2) \<and>
   (data_h h + unat (length_h h) + 1 < len \<and> buf ! (data_h h + unat (length_h h)) = 0
      \<and> buf ! (data_h h + unat (length_h h) + 1) = 0
      \<longrightarrow> next_record buf len h = data_h h + unat (length_h h) + 2) \<and>
   (next_record buf len h \<le> len \<longrightarrow>
      data_h h + unat (length_h h) + 2 \<le> next_record buf len h
      \<and> buf ! (next_record buf len h - 2) = 0 \<and> buf ! (next_record buf len h - 1) = 0
      \<and> (\<forall>q. data_h h + unat (length_h h) \<le> q \<and> q + 2 < next_record buf len h
               \<longrightarrow> buf ! q \<noteq> 0 \<or> buf ! (q + 1) \<noteq> 0)) \<and>
   (4 \<le> length_h (to_dmi_header (buf_w st) (data_w st))
      \<and> \<not> (quiet (opt_w st) \<and> type_h (to_dmi_header (buf_w st) (data_w st)) = 127)
      \<longrightarrow> data_w (state_of (decode_step D vendor len ver flags st))
            = next_record (buf_w st) len (to_dmi_header (buf_w st) (data_w st))) \<and>
   ((i < unat num \<or> num = 0) \<and> data + 4 \<le> len
      \<and> 4 \<le> length_h (to_dmi_header buf data)
      \<and> \<not> (type_h (to_dmi_header buf data) = 127
             \<and> flags_o opt AND (FLAG_QUIET OR FLAG_STOP_AT_EOT) \<noteq> 0)
      \<and> next_record buf len (to_dmi_header buf data) \<le> len
      \<and> \<not> (type_h (to_dmi_header buf data) = 1 \<and> length_h (to_dmi_header buf data) \<ge> 6)
      \<longrightarrow> first_pass opt buf len num i data
            = first_pass opt buf len num (i + 1)
                (next_record buf len (to_dmi_header buf data)))"
proof (intro conjI allI impI)
  fix p
  assume "data_h h + unat (length_h h) \<le> p \<and> p + 1 < len \<and> buf ! p = 0 \<and> buf ! (p + 1) = 0
        \<and> (\<forall>q. data_h h + unat (length_h h) \<le> q \<and> q < p
                 \<longrightarrow> buf ! q \<noteq> 0 \<or> buf ! (q + 1) \<noteq> 0)"
  then have "next_scan buf len (data_h h + unat (length_h h)) = p"
    by (intro next_scan_first_pair) simp_all
  then show "next_record buf len h = p + 2" by (simp add: next_record_def)
next
  assume "data_h h + unat (length_h h) + 1 < len \<and> buf ! (data_h h + unat (length_h h)) = 0
      \<and> buf ! (data_h h + unat (length_h h) + 1) = 0"
  then show "next_record buf len h = data_h h + unat (length_h h) + 2"
    by (simp add: next_record_def next_scan_pair)
next
  let ?s = "data_h h + unat (length_h h)"
  let ?r = "next_scan buf len ?s"
  assume fits: "next_record buf len h \<le> len"
  then have r: "?r + 1 < len" by (simp add: next_record_def)
  note res = next_scan_result [of ?s buf len]
  show "?s + 2 \<le> next_record buf len h" using res by (simp add: next_record_def)
  show "buf ! (next_record buf len h - 2) = 0" using res r by (simp add: next_record_def)
  show "buf ! (next_record buf len h - 1) = 0" using res r by (simp add: next_record_def)
  fix q assume "?s \<le> q \<and> q + 2 < next_record buf len h"
  then have "?s \<le> q \<and> q < ?r" by (simp add: next_record_def)
  then show "buf ! q \<noteq> 0 \<or> buf ! (q + 1) \<noteq> 0" using res by blast
next
  assume "4 \<le> length_h (to_dmi_header (buf_w st) (data_w st))
      \<and> \<not> (quiet (opt_w st) \<and> type_h (to_dmi_header (buf_w st) (data_w st)) = 127)"
  then show "data_w (state_of (decode_step D vendor len ver flags st))
            = next_record (buf_w st) len (to_dmi_header (buf_w st) (data_w st))"
    by (intro decode_step_data) simp_all
next
  assume "(i < unat num \<or> num = 0) \<and> data + 4 \<le> len
      \<and> 4 \<le> length_h (to_dmi_header buf data)
      \<and> \<not> (type_h (to_dmi_header buf data) = 127
             \<and> flags_o opt AND (FLAG_QUIET OR FLAG_STOP_AT_EOT) \<noteq> 0)
      \<and> next_record buf len (to_dmi_header buf data) \<le> len
      \<and> \<not> (type_h (to_dmi_header buf data) = 1 \<and> length_h (to_dmi_header buf data) \<ge> 6)"
  then show "first_pass opt buf len num i data
            = first_pass opt buf len num (i + 1)
                (next_record buf len (to_dmi_header buf data))"
    by (intro first_pass_next) simp_all
qed

theorem next_record_double_zero_witness:
  "next_record table_two 23 hdr_array = 17 \<and>
   table_two ! 15 = 0 \<and> table_two ! 16 = 0 \<and>
   data_w (state_of (decode_step sample_decoders None 23 0x0208 0 (walk_start table_two))) = 17 \<and>
   first_pass default_opt table_two 23 2 0 0 = first_pass default_opt table_two 23 2 1 17"
proof -
  note t = next_record_double_zero
             [where h = hdr_array and len = 23 and buf = table_two
                and st = "walk_start table_two" and D = sample_decoders and vendor = None
                and ver = "0x0208" and flags = 0 and i = 0 and num = 2 and data = 0
                and opt = default_opt]
  have hd: "to_dmi_header table_two 0 = hdr_array"
    by (simp add: to_dmi_header_def table_two_def rec_array_def hdr_array_def word_at_def)
  have st: "buf_w (walk_start table_two) = table_two" "data_w (walk_start table_two) = 0"
    "opt_w (walk_start table_two) = default_opt"
    by (simp_all add: walk_start_def)
  have z: "table_two ! 15 = 0" "table_two ! 16 = 0"
    by (simp_all add: table_two_def rec_array_def)
  have a: "data_h hdr_array + unat (length_h hdr_array) + 1 < 23
      \<and> table_two ! (data_h hdr_array + unat (length_h hdr_array)) = 0
      \<and> table_two ! (data_h hdr_array + unat (length_h hdr_array) + 1) = 0"
    by (simp add: hdr_array_def table_two_def rec_array_def)
  have s: "data_h hdr_array + unat (length_h hdr_array) + 2 = 17"
    by (simp add: hdr_array_def)
  from t have "data_h hdr_array + unat (length_h hdr_array) + 1 < 23
      \<and> table_two ! (data_h hdr_array + unat (length_h hdr_array)) = 0
      \<and> table_two ! (data_h hdr_array + unat (length_h hdr_array) + 1) = 0
      \<longrightarrow> next_record table_two 23 hdr_array
            = data_h hdr_array + unat (length_h hdr_array) + 2"
    by (elim conjE)
  with a have n: "next_record table_two 23 hdr_array = 17"
    unfolding s by (rule rev_mp)
  have b: "4 \<le> length_h (to_dmi_header (buf_w (walk_start table_two))
                              (data_w (walk_start table_two)))
      \<and> \<not> (quiet (opt_w (walk_start table_two))
             \<and> type_h (to_dmi_header (buf_w (walk_start table_two))
                                     (data_w (walk_start table_two))) = 127)"
    by (simp add: st hd hdr_array_def)
  from t have "4 \<le> length_h (to_dmi_header (buf_w (walk_start table_two))
                              (data_w (walk_start table_two)))
      \<and> \<not> (quiet (opt_w (walk_start table_two))
             \<and> type_h (to_dmi_header (buf_w (walk_start table_two))
                                     (data_w (walk_start table_two))) = 127)
      \<longrightarrow> data_w (state_of (decode_step sample_decoders None 23 0x0208 0
                                 (walk_start table_two)))
            = next_record (buf_w (walk_start table_two)) 23
                (to_dmi_header (buf_w (walk_start table_two)) (data_w (walk_start table_two)))"
    by (elim conjE)
  with b have "data_w (state_of (decode_step sample_decoders None 23 0x0208 0
                                 (walk_start table_two)))
            = next_record (buf_w (walk_start table_two)) 23
                (to_dmi_header (buf_w (walk_start table_two)) (data_w (walk_start table_two)))"
    by (rule rev_mp)
  then have d: "data_w (state_of (decode_step sample_decoders None 23 0x0208 0
                                 (walk_start table_two))) = 17"
    by (simp add: st hd n)
  have c: "((0::nat) < unat (2::u16) \<or> (2::u16) = 0) \<and> (0::nat) + 4 \<le> 23
      \<and> 4 \<le> length_h (to_dmi_header table_two 0)
      \<and> \<not> (type_h (to_dmi_header table_two 0) = 127
             \<and> flags_o default_opt AND (FLAG_QUIET OR FLAG_STOP_AT_EOT) \<noteq> 0)
      \<and> next_record table_two 23 (to_dmi_header table_two 0) \<le> 23
      \<and> \<not> (type_h (to_dmi_header table_two 0) = 1
             \<and> length_h (to_dmi_header table_two 0) \<ge> 6)"
    by (simp add: hd n) (simp add: hdr_array_def)
  from t have "((0::nat) < unat (2::u16) \<or> (2::u16) = 0) \<and> (0::nat) + 4 \<le> 23
      \<and> 4 \<le> length_h (to_dmi_header table_two 0)
      \<and> \<not> (type_h (to_dmi_header table_two 0) = 127
             \<and> flags_o default_opt AND (FLAG_QUIET OR FLAG_STOP_AT_EOT) \<noteq> 0)
      \<and> next_record table_two 23 (to_dmi_header table_two 0) \<le> 23
      \<and> \<not> (type_h (to_dmi_header table_two 0) = 1
             \<and> length_h (to_dmi_header table_two 0) \<ge> 6)
      \<longrightarrow> first_pass default_opt table_two 23 2 0 0
            = first_pass default_opt table_two 23 2 (0 + 1)
                (next_record table_two 23 (to_dmi_header table_two 0))"
    by (elim conjE)
  with c have "first_pass default_opt table_two 23 2 0 0
            = first_pass default_opt table_two 23 2 (0 + 1)
                (next_record table_two 23 (to_dmi_header table_two 0))"
    by (rule rev_mp)
  then have f: "first_pass default_opt table_two 23 2 0 0
                  = first_pass default_opt table_two 23 2 1 17"
    by (simp add: hd n)
  from n z d f show ?thesis by (intro conjI)
qed

subsection \<open>Table walker: the second pass\<close>

lemma second_pass_stop: "\<not> loop_cond len num st \<Longrightarrow> second_pass D vendor len num ver flags st = st"
  by (subst second_pass.simps) simp

lemma second_pass_Break:
  "loop_cond len num st \<Longrightarrow> decode_step D vendor len ver flags st = Break s
   \<Longrightarrow> second_pass D vendor len num ver flags st = s"
  by (subst second_pass.simps) simp

lemma second_pass_Continue:
  "loop_cond len num st \<Longrightarrow> decode_step D vendor len ver flags st = Continue s
   \<Longrightarrow> second_pass D vendor len num ver flags st = second_pass D vendor len num ver flags s"
  by (subst second_pass.simps) simp

lemma decode_step_short:
  assumes "length_h (to_dmi_header (buf_w st) (data_w st)) < 4"
  shows "decode_step D vendor len ver flags st =
           Break (if quiet (opt_w st) then st
                  else st\<lparr>out_w := out_w st @ [Printf_invalid_length
                               (unat (length_h (to_dmi_header (buf_w st) (data_w st))))],
                          opt_w := (opt_w st)\<lparr>flags_o := flags_o (opt_w st) OR FLAG_QUIET\<rparr>\<rparr>)"
  using assms by (simp add: decode_step_def Let_def)

lemma decode_step_truncated:
  assumes "4 \<le> length_h (to_dmi_header (buf_w st) (data_w st))"
    and "len < next_record (buf_w st) len (to_dmi_header (buf_w st) (data_w st))"
  shows "decode_step D vendor len ver flags st =
           Break (let opt = opt_w st; h = to_dmi_header (buf_w st) (data_w st) in
                  if quiet opt \<and> type_h h = 127 then st\<lparr>i_w := i_w st + 1\<rparr>
                  else st\<lparr>i_w := i_w st + 1,
                          out_w := out_w st
                            @ (if display_of opt h \<and> (\<not> quiet opt \<or> dump opt)
                               then [Pr_handle h] else [])
                            @ (if display_of opt h \<and> \<not> quiet opt
                               then [Pr_struct_err ''<TRUNCATED>''] else [])
                            @ [Pr_sep],
                          data_w := next_record (buf_w st) len h\<rparr>)"
proof -
  have c1: "(length_h (to_dmi_header (buf_w st) (data_w st)) < 4) = False"
    using assms(1) by (simp add: not_less)
  have c2: "(len < next_record (buf_w st) len (to_dmi_header (buf_w st) (data_w st))) = True"
    using assms(2) by simp
  show ?thesis
    by (simp add: decode_step_def Let_def c1 c2)
qed

lemma quiet_set: "quiet (opt\<lparr>flags_o := flags_o opt OR FLAG_QUIET\<rparr>)"
proof -
  have "bit ((flags_o opt OR FLAG_QUIET) AND FLAG_QUIET) 3"
    by (simp add: FLAG_QUIET_def bit_simps)
  then have "(flags_o opt OR FLAG_QUIET) AND FLAG_QUIET \<noteq> 0" by auto
  then show ?thesis by (simp add: quiet_def)
qed

lemma fixup_events:
  "filter is_invalid_length (fst (dmi_fixup_type_34 opt buf h display)) = []"
  "filter is_mismatch (fst (dmi_fixup_type_34 opt buf h display)) = []"
  by (simp_all add: dmi_fixup_type_34_def)

lemma decode_record_events:
  "filter is_invalid_length (fst (decode_record D vendor opt buf h display data ver)) = []"
  "filter is_mismatch (fst (decode_record D vendor opt buf h display data ver)) = []"
  by (simp_all add: decode_record_def split_beta split: option.split)

lemma decode_step_long_events:
  assumes "4 \<le> length_h (to_dmi_header (buf_w st) (data_w st))"
  shows "opt_w (state_of (decode_step D vendor len ver flags st)) = opt_w st
     \<and> filter is_invalid_length (out_w (state_of (decode_step D vendor len ver flags st)))
         = filter is_invalid_length (out_w st)
     \<and> filter is_mismatch (out_w (state_of (decode_step D vendor len ver flags st)))
         = filter is_mismatch (out_w st)"
proof -
  have c1: "(length_h (to_dmi_header (buf_w st) (data_w st)) < 4) = False"
    using assms by (simp add: not_less)
  show ?thesis
    by (simp add: decode_step_def Let_def c1 fixup_events decode_record_events)
qed

lemma decode_step_events:
  "filter is_mismatch (out_w (state_of (decode_step D vendor len ver flags st)))
     = filter is_mismatch (out_w st)
   \<and> (opt_w (state_of (decode_step D vendor len ver flags st)) = opt_w st
        \<and> filter is_invalid_length (out_w (state_of (decode_step D vendor len ver flags st)))
            = filter is_invalid_length (out_w st)
      \<or> quiet (opt_w (state_of (decode_step D vendor len ver flags st)))
        \<and> length (filter is_invalid_length
                    (out_w (state_of (decode_step D vendor len ver flags st))))
            = length (filter is_invalid_length (out_w st)) + 1
        \<and> \<not> quiet (opt_w st))"
proof (cases "length_h (to_dmi_header (buf_w st) (data_w st)) < 4")
  case True
  show ?thesis
    by (simp add: decode_step_short [OF True] quiet_set)
next
  case False
  then have "4 \<le> length_h (to_dmi_header (buf_w st) (data_w st))" by (simp add: not_less)
  then show ?thesis using decode_step_long_events by blast
qed

lemma decode_step_Continue_events:
  assumes "decode_step D vendor len ver flags st = Continue s"
  shows "opt_w s = opt_w st
     \<and> filter is_invalid_length (out_w s) = filter is_invalid_length (out_w st)
     \<and> filter is_mismatch (out_w s) = filter is_mismatch (out_w st)"
proof (cases "length_h (to_dmi_header (buf_w st) (data_w st)) < 4")
  case True
  then show ?thesis using assms by (simp add: decode_step_short)
next
  case False
  then have "4 \<le> length_h (to_dmi_header (buf_w st) (data_w st))" by (simp add: not_less)
  then show ?thesis
    using decode_step_long_events [of st D vendor len ver flags] assms by simp
qed

lemma second_pass_diagnostics:
  "filter is_mismatch (out_w (second_pass D vendor len num ver flags st))
     = filter is_mismatch (out_w st)
   \<and> (opt_w (second_pass D vendor len num ver flags st) = opt_w st
        \<and> filter is_invalid_length (out_w (second_pass D vendor len num ver flags st))
            = filter is_invalid_length (out_w st)
      \<or> quiet (opt_w (second_pass D vendor len num ver flags st))
        \<and> length (filter is_invalid_length (out_w (second_pass D vendor len num ver flags st)))
            = length (filter is_invalid_length (out_w st)) + 1
        \<and> \<not> quiet (opt_w st))"
proof (induction D vendor len num ver flags st rule: second_pass.induct)
  case (1 D vendor len num ver flags st)
  show ?case
  proof (cases "loop_cond len num st")
    case False
    then show ?thesis by (simp add: second_pass_stop)
  next
    case True
    show ?thesis
    proof (cases "decode_step D vendor len ver flags st")
      case (Break s)
      then have "second_pass D vendor len num ver flags st
                   = state_of (decode_step D vendor len ver flags st)"
        using True by (simp add: second_pass_Break)
      then show ?thesis using decode_step_events [of D vendor len ver flags st] by simp
    next
      case (Continue s)
      have eq: "second_pass D vendor len num ver flags st
                  = second_pass D vendor len num ver flags s"
        using True Continue by (rule second_pass_Continue)
      note ih = "1.IH" [OF True Continue]
      note ev = decode_step_Continue_events [OF Continue]
      show ?thesis unfolding eq using ih ev by simp
    qed
  qed
qed

lemma post_walk_quiet: "quiet (opt_w st) \<Longrightarrow> post_walk len num st = []"
  by (simp add: post_walk_def)

lemma post_walk_events: "filter is_invalid_length (post_walk len num st) = []"
  by (simp add: post_walk_def)

lemma table_diagnostics:
  "(opt_w (dmi_table_decode D opt buf len num ver flags) = opt
      \<and> filter is_invalid_length (out_w (dmi_table_decode D opt buf len num ver flags)) = []
    \<or> quiet (opt_w (dmi_table_decode D opt buf len num ver flags))
      \<and> length (filter is_invalid_length (out_w (dmi_table_decode D opt buf len num ver flags)))
          = 1
      \<and> filter is_mismatch (out_w (dmi_table_decode D opt buf len num ver flags)) = []
      \<and> \<not> quiet opt)"
proof -
  let ?init = "\<lparr>i_w = 0, data_w = 0, buf_w = buf, opt_w = opt, out_w = []\<rparr>"
  let ?v = "first_pass opt buf len num 0 0"
  let ?st = "second_pass D ?v len num ver flags ?init"
  have r: "dmi_table_decode D opt buf len num ver flags
             = ?st\<lparr>out_w := out_w ?st @ post_walk len num ?st\<rparr>"
    by (simp add: dmi_table_decode_def Let_def)
  note d = second_pass_diagnostics [of D ?v len num ver flags ?init]
  from d have m: "filter is_mismatch (out_w ?st) = []" by simp
  from d consider
      (same) "opt_w ?st = opt" "filter is_invalid_length (out_w ?st) = []"
    | (once) "quiet (opt_w ?st)" "length (filter is_invalid_length (out_w ?st)) = 1"
             "\<not> quiet opt"
    by auto
  then show ?thesis
  proof cases
    case same
    then show ?thesis unfolding r by (simp add: post_walk_events)
  next
    case once
    then show ?thesis unfolding r by (simp add: post_walk_quiet m)
  qed
qed

text \<open>
  C3. When the second loop meets a record whose declared length is below 4, the
  pass ends there: its counter, its position and the buffer stay as they are, what was
  written before stays and, unless \<open>FLAG_QUIET\<close> is set, exactly the diagnostic about the
  length is added (and \<open>FLAG_QUIET\<close> set).
\<close>

theorem second_pass_short_record:
  "loop_cond len num st \<and> length_h (to_dmi_header (buf_w st) (data_w st)) < 4 \<longrightarrow>
     second_pass D vendor len num ver flags st =
       (if quiet (opt_w st) then st
        else st\<lparr>out_w := out_w st @ [Printf_invalid_length
                     (unat (length_h (to_dmi_header (buf_w st) (data_w st))))],
                opt_w := (opt_w st)\<lparr>flags_o := flags_o (opt_w st) OR FLAG_QUIET\<rparr>\<rparr>)"
proof
  assume a: "loop_cond len num st \<and> length_h (to_dmi_header (buf_w st) (data_w st)) < 4"
  then have "decode_step D vendor len ver flags st =
           Break (if quiet (opt_w st) then st
                  else st\<lparr>out_w := out_w st @ [Printf_invalid_length
                               (unat (length_h (to_dmi_header (buf_w st) (data_w st))))],
                          opt_w := (opt_w st)\<lparr>flags_o := flags_o (opt_w st) OR FLAG_QUIET\<rparr>\<rparr>)"
    by (intro decode_step_short) simp
  with a show "second_pass D vendor len num ver flags st =
       (if quiet (opt_w st) then st
        else st\<lparr>out_w := out_w st @ [Printf_invalid_length
                     (unat (length_h (to_dmi_header (buf_w st) (data_w st))))],
                opt_w := (opt_w st)\<lparr>flags_o := flags_o (opt_w st) OR FLAG_QUIET\<rparr>\<rparr>)"
    by (intro second_pass_Break) simp_all
qed

text \<open>
  C2. When the second loop meets a record of declared length at least 4 whose
  computed end lies beyond the table, the pass ends with this record: what was written
  before stays, the handle line and, if the record is displayed and \<open>FLAG_QUIET\<close> is not
  set, the marker \<open><TRUNCATED>\<close> are added, followed by a separator; no decoder is called,
  so nothing decoded is written and the buffer is unchanged. In quiet mode an end-of-table
  record ends the pass before its end is computed, and nothing is written.
\<close>

theorem second_pass_truncated_record:
  "loop_cond len num st \<and> 4 \<le> length_h (to_dmi_header (buf_w st) (data_w st))
     \<and> len < next_record (buf_w st) len (to_dmi_header (buf_w st) (data_w st)) \<longrightarrow>
     second_pass D vendor len num ver flags st =
       (let opt = opt_w st; h = to_dmi_header (buf_w st) (data_w st) in
        if quiet opt \<and> type_h h = 127 then st\<lparr>i_w := i_w st + 1\<rparr>
        else st\<lparr>i_w := i_w st + 1,
                out_w := out_w st
                  @ (if display_of opt h \<and> (\<not> quiet opt \<or> dump opt) then [Pr_handle h] else [])
                  @ (if display_of opt h \<and> \<not> quiet opt then [Pr_struct_err ''<TRUNCATED>'']
                     else [])
                  @ [Pr_sep],
                data_w := next_record (buf_w st) len h\<rparr>)
     \<and> buf_w (second_pass D vendor len num ver flags st) = buf_w st
     \<and> prefix (out_w st) (out_w (second_pass D vendor len num ver flags st))
     \<and> (\<forall>w. Decoded w
            \<notin> set (drop (length (out_w st)) (out_w (second_pass D vendor len num ver flags st))))"
proof
  let ?r = "let opt = opt_w st; h = to_dmi_header (buf_w st) (data_w st) in
        if quiet opt \<and> type_h h = 127 then st\<lparr>i_w := i_w st + 1\<rparr>
        else st\<lparr>i_w := i_w st + 1,
                out_w := out_w st
                  @ (if display_of opt h \<and> (\<not> quiet opt \<or> dump opt) then [Pr_handle h] else [])
                  @ (if display_of opt h \<and> \<not> quiet opt then [Pr_struct_err ''<TRUNCATED>'']
                     else [])
                  @ [Pr_sep],
                data_w := next_record (buf_w st) len h\<rparr>"
  assume a: "loop_cond len num st \<and> 4 \<le> length_h (to_dmi_header (buf_w st) (data_w st))
     \<and> len < next_record (buf_w st) len (to_dmi_header (buf_w st) (data_w st))"
  then have "decode_step D vendor len ver flags st = Break ?r"
    by (intro decode_step_truncated) simp_all
  with a have eq: "second_pass D vendor len num ver flags st = ?r"
    by (intro second_pass_Break) simp_all
  have b: "buf_w ?r = buf_w st" by (simp add: Let_def)
  have p: "prefix (out_w st) (out_w ?r)" by (simp add: Let_def)
  have d: "\<forall>w. Decoded w \<notin> set (drop (length (out_w st)) (out_w ?r))"
    by (simp add: Let_def)
  show "second_pass D vendor len num ver flags st = ?r
     \<and> buf_w (second_pass D vendor len num ver flags st) = buf_w st
     \<and> prefix (out_w st) (out_w (second_pass D vendor len num ver flags st))
     \<and> (\<forall>w. Decoded w
            \<notin> set (drop (length (out_w st)) (out_w (second_pass D vendor len num ver flags st))))"
    unfolding eq using b p d by (intro conjI) simp_all
qed

text \<open>
  C10. A turn of the second loop that meets a record shorter than 4 while
  \<open>FLAG_QUIET\<close> is not set writes the diagnostic about the length and leaves \<open>FLAG_QUIET\<close>
  set in the options. So \<open>dmi_table_decode\<close> writes this diagnostic at most once and not
  at all when it starts in quiet mode, which it never leaves; when it has written the
  diagnostic, the options are quiet afterwards and neither of the diagnostics about the
  announced count and length is written; and a further call with the options it left
  does not write the diagnostic again.
\<close>

theorem invalid_length_reported_once:
  "(length_h (to_dmi_header (buf_w st) (data_w st)) < 4 \<and> \<not> quiet (opt_w st) \<longrightarrow>
      decode_step D vendor len ver flags st =
        Break (st\<lparr>out_w := out_w st @ [Printf_invalid_length
                       (unat (length_h (to_dmi_header (buf_w st) (data_w st))))],
                  opt_w := (opt_w st)\<lparr>flags_o := flags_o (opt_w st) OR FLAG_QUIET\<rparr>\<rparr>)
      \<and> quiet ((opt_w st)\<lparr>flags_o := flags_o (opt_w st) OR FLAG_QUIET\<rparr>)) \<and>
   length (filter is_invalid_length (out_w (dmi_table_decode D opt buf len num ver flags))) \<le> 1 \<and>
   (quiet opt \<longrightarrow>
      filter is_invalid_length (out_w (dmi_table_decode D opt buf len num ver flags)) = []
      \<and> quiet (opt_w (dmi_table_decode D opt buf len num ver flags))) \<and>
   (filter is_invalid_length (out_w (dmi_table_decode D opt buf len num ver flags)) \<noteq> [] \<longrightarrow>
      quiet (opt_w (dmi_table_decode D opt buf len num ver flags))
      \<and> filter is_mismatch (out_w (dmi_table_decode D opt buf len num ver flags)) = []) \<and>
   length (filter is_invalid_length
             (out_w (dmi_table_decode D opt buf len num ver flags)
              @ out_w (dmi_table_decode D' (opt_w (dmi_table_decode D opt buf len num ver flags))
                         buf' len' num' ver' flags'))) \<le> 1"
proof -
  let ?r = "dmi_table_decode D opt buf len num ver flags"
  let ?r' = "dmi_table_decode D' (opt_w ?r) buf' len' num' ver' flags'"
  note t = table_diagnostics [of D opt buf len num ver flags]
  note t' = table_diagnostics [of D' "opt_w ?r" buf' len' num' ver' flags']
  have 1: "length_h (to_dmi_header (buf_w st) (data_w st)) < 4 \<and> \<not> quiet (opt_w st) \<longrightarrow>
      decode_step D vendor len ver flags st =
        Break (st\<lparr>out_w := out_w st @ [Printf_invalid_length
                       (unat (length_h (to_dmi_header (buf_w st) (data_w st))))],
                  opt_w := (opt_w st)\<lparr>flags_o := flags_o (opt_w st) OR FLAG_QUIET\<rparr>\<rparr>)
      \<and> quiet ((opt_w st)\<lparr>flags_o := flags_o (opt_w st) OR FLAG_QUIET\<rparr>)"
    by (simp add: decode_step_short quiet_set)
  have 2: "length (filter is_invalid_length (out_w ?r)) \<le> 1"
    using t by auto
  have 3: "quiet opt \<longrightarrow> filter is_invalid_length (out_w ?r) = [] \<and> quiet (opt_w ?r)"
    using t by auto
  have 4: "filter is_invalid_length (out_w ?r) \<noteq> [] \<longrightarrow>
      quiet (opt_w ?r) \<and> filter is_mismatch (out_w ?r) = []"
    using t by auto
  have 5: "length (filter is_invalid_length (out_w ?r @ out_w ?r')) \<le> 1"
  proof (cases "filter is_invalid_length (out_w ?r) = []")
    case True
    then show ?thesis using t' by auto
  next
    case False
    then have "quiet (opt_w ?r)" using 4 by simp
    then have "filter is_invalid_length (out_w ?r') = []" using t' by auto
    then show ?thesis using 2 by simp
  qed
  from 1 2 3 4 5 show ?thesis by (intro conjI)
qed

lemma default_opt_fields:
  "flags_o default_opt = 0" "type_o default_opt = None" "string_o default_opt = None"
  "handle_o default_opt = NOT 0" "quiet default_opt = False" "dump default_opt = False"
  by (simp_all add: default_opt_def quiet_def dump_def)

lemma hdr_array_fields:
  "type_h hdr_array = 16" "length_h hdr_array = 0x0F" "data_h hdr_array = 0"
  by (simp_all add: hdr_array_def)

lemma sample_headers:
  "to_dmi_header table_short 0 = hdr_array" "to_dmi_header table_truncated 0 = hdr_array"
  "to_dmi_header table_short 17 = hdr_bad" "to_dmi_header table_truncated 17 = hdr_eot"
  by (simp_all add: to_dmi_header_def table_short_def table_truncated_def rec_array_def
        hdr_array_def hdr_bad_def hdr_eot_def word_at_def)

lemma sample_ends:
  "next_record table_short 23 hdr_array = 17" "next_record table_truncated 22 hdr_array = 17"
  "next_record table_truncated 22 hdr_eot = 23"
  by code_simp+

lemma sample_decoded:
  "dmi_decode_16 default_opt table_short hdr_array = Some decoded_array"
  "dmi_decode_16 default_opt table_truncated hdr_array = Some decoded_array"
  by code_simp+

lemma first_step:
  assumes "to_dmi_header T 0 = hdr_array" "next_record T L hdr_array = 17" "17 \<le> L"
    and "dmi_decode_16 default_opt T hdr_array = Some decoded_array"
  shows "decode_step sample_decoders v L ver 0 (walk_start T) =
           Continue \<lparr>i_w = 1, data_w = 17, buf_w = T, opt_w = default_opt,
                     out_w = [Pr_handle hdr_array, Decoded decoded_array]\<rparr>"
proof -
  have c: "(L < 17) = False" using assms(3) by simp
  show ?thesis
    by (simp add: decode_step_def Let_def walk_start_def assms(1,2,4) c display_of_def
          default_opt_fields hdr_array_fields decode_record_def sample_decoders_def)
qed

lemma second_step_short:
  "second_pass sample_decoders v 23 2 ver 0 (walk_start table_short) =
     second_pass sample_decoders v 23 2 ver 0
       \<lparr>i_w = 1, data_w = 17, buf_w = table_short, opt_w = default_opt,
         out_w = [Pr_handle hdr_array, Decoded decoded_array]\<rparr>"
proof (rule second_pass_Continue)
  show "loop_cond 23 2 (walk_start table_short)"
    by (simp add: loop_cond_def walk_start_def)
  show "decode_step sample_decoders v 23 ver 0 (walk_start table_short) =
     Continue \<lparr>i_w = 1, data_w = 17, buf_w = table_short, opt_w = default_opt,
         out_w = [Pr_handle hdr_array, Decoded decoded_array]\<rparr>"
    by (rule first_step) (simp_all add: sample_headers sample_ends sample_decoded)
qed

lemma second_step_truncated:
  "second_pass sample_decoders v 22 2 ver 0 (walk_start table_truncated) =
     second_pass sample_decoders v 22 2 ver 0
       \<lparr>i_w = 1, data_w = 17, buf_w = table_truncated, opt_w = default_opt,
         out_w = [Pr_handle hdr_array, Decoded decoded_array]\<rparr>"
proof (rule second_pass_Continue)
  show "loop_cond 22 2 (walk_start table_truncated)"
    by (simp add: loop_cond_def walk_start_def)
  show "decode_step sample_decoders v 22 ver 0 (walk_start table_truncated) =
     Continue \<lparr>i_w = 1, data_w = 17, buf_w = table_truncated, opt_w = default_opt,
         out_w = [Pr_handle hdr_array, Decoded decoded_array]\<rparr>"
    by (rule first_step) (simp_all add: sample_headers sample_ends sample_decoded)
qed

lemma run_short:
  "second_pass sample_decoders v 23 2 ver 0 (walk_start table_short) =
     \<lparr>i_w = 1, data_w = 17, buf_w = table_short, opt_w = quiet_opt,
       out_w = [Pr_handle hdr_array, Decoded decoded_array, Printf_invalid_length 2]\<rparr>"
proof -
  let ?s = "\<lparr>i_w = 1, data_w = 17, buf_w = table_short, opt_w = default_opt,
         out_w = [Pr_handle hdr_array, Decoded decoded_array]\<rparr>"
  have l: "loop_cond 23 2 ?s" by (simp add: loop_cond_def)
  have h: "length_h (to_dmi_header (buf_w ?s) (data_w ?s)) < 4"
    by (simp add: sample_headers hdr_bad_def)
  have "second_pass sample_decoders v 23 2 ver 0 ?s =
     \<lparr>i_w = 1, data_w = 17, buf_w = table_short, opt_w = quiet_opt,
       out_w = [Pr_handle hdr_array, Decoded decoded_array, Printf_invalid_length 2]\<rparr>"
    using second_pass_Break [OF l decode_step_short [OF h]]
    by (simp add: default_opt_fields sample_headers hdr_bad_def quiet_opt_def)
  then show ?thesis by (simp add: second_step_short)
qed

theorem second_pass_short_record_witness:
  "second_pass sample_decoders None 23 2 0x0208 0 (walk_start table_short) =
     \<lparr>i_w = 1, data_w = 17, buf_w = table_short, opt_w = quiet_opt,
       out_w = [Pr_handle hdr_array, Decoded decoded_array, Printf_invalid_length 2]\<rparr>"
proof -
  let ?s = "\<lparr>i_w = 1, data_w = 17, buf_w = table_short, opt_w = default_opt,
         out_w = [Pr_handle hdr_array, Decoded decoded_array]\<rparr>"
  have a: "loop_cond 23 2 ?s \<and> length_h (to_dmi_header (buf_w ?s) (data_w ?s)) < 4"
    by (simp add: loop_cond_def sample_headers hdr_bad_def)
  note t = second_pass_short_record
             [where len = 23 and num = 2 and st = ?s and D = sample_decoders and vendor = None
                and ver = "0x0208" and flags = 0]
  from t a have "second_pass sample_decoders None 23 2 0x0208 0 ?s =
       (if quiet (opt_w ?s) then ?s
        else ?s\<lparr>out_w := out_w ?s @ [Printf_invalid_length
                     (unat (length_h (to_dmi_header (buf_w ?s) (data_w ?s))))],
                opt_w := (opt_w ?s)\<lparr>flags_o := flags_o (opt_w ?s) OR FLAG_QUIET\<rparr>\<rparr>)"
    by (rule mp)
  then have "second_pass sample_decoders None 23 2 0x0208 0 ?s =
     \<lparr>i_w = 1, data_w = 17, buf_w = table_short, opt_w = quiet_opt,
       out_w = [Pr_handle hdr_array, Decoded decoded_array, Printf_invalid_length 2]\<rparr>"
    by (simp add: default_opt_fields sample_headers hdr_bad_def quiet_opt_def)
  then show ?thesis by (simp add: second_step_short)
qed

theorem second_pass_truncated_record_witness:
  "second_pass sample_decoders None 22 2 0x0208 0 (walk_start table_truncated) =
     \<lparr>i_w = 2, data_w = 23, buf_w = table_truncated, opt_w = default_opt,
       out_w = [Pr_handle hdr_array, Decoded decoded_array,
                Pr_handle hdr_eot, Pr_struct_err ''<TRUNCATED>'', Pr_sep]\<rparr>"
proof -
  let ?s = "\<lparr>i_w = 1, data_w = 17, buf_w = table_truncated, opt_w = default_opt,
         out_w = [Pr_handle hdr_array, Decoded decoded_array]\<rparr>"
  have a: "loop_cond 22 2 ?s \<and> 4 \<le> length_h (to_dmi_header (buf_w ?s) (data_w ?s))
     \<and> 22 < next_record (buf_w ?s) 22 (to_dmi_header (buf_w ?s) (data_w ?s))"
    by (simp add: loop_cond_def sample_headers sample_ends) (simp add: hdr_eot_def)
  note t = second_pass_truncated_record
             [where len = 22 and num = 2 and st = ?s and D = sample_decoders and vendor = None
                and ver = "0x0208" and flags = 0, THEN mp, OF a, THEN conjunct1]
  have d: "display_of default_opt hdr_eot"
    by (simp add: display_of_def default_opt_fields)
  from t have "second_pass sample_decoders None 22 2 0x0208 0 ?s =
     \<lparr>i_w = 2, data_w = 23, buf_w = table_truncated, opt_w = default_opt,
       out_w = [Pr_handle hdr_array, Decoded decoded_array,
                Pr_handle hdr_eot, Pr_struct_err ''<TRUNCATED>'', Pr_sep]\<rparr>"
    by (simp add: Let_def default_opt_fields sample_headers sample_ends d)
  then show ?thesis by (simp add: second_step_truncated)
qed

theorem invalid_length_reported_once_witness:
  "out_w (dmi_table_decode sample_decoders default_opt table_short 23 2 0x0208 0)
     = [Pr_handle hdr_array, Decoded decoded_array, Printf_invalid_length 2] \<and>
   quiet (opt_w (dmi_table_decode sample_decoders default_opt table_short 23 2 0x0208 0)) \<and>
   filter is_mismatch
     (out_w (dmi_table_decode sample_decoders default_opt table_short 23 2 0x0208 0)) = [] \<and>
   decode_step sample_decoders None 23 0x0208 0
     \<lparr>i_w = 1, data_w = 17, buf_w = table_short, opt_w = default_opt,
       out_w = [Pr_handle hdr_array, Decoded decoded_array]\<rparr>
     = Break \<lparr>i_w = 1, data_w = 17, buf_w = table_short, opt_w = quiet_opt,
              out_w = [Pr_handle hdr_array, Decoded decoded_array, Printf_invalid_length 2]\<rparr>"
proof -
  let ?s = "\<lparr>i_w = 1, data_w = 17, buf_w = table_short, opt_w = default_opt,
         out_w = [Pr_handle hdr_array, Decoded decoded_array]\<rparr>"
  let ?r = "dmi_table_decode sample_decoders default_opt table_short 23 2 0x0208 0"
  note t = invalid_length_reported_once
             [where st = ?s and D = sample_decoders and vendor = None and len = 23
                and ver = "0x0208" and flags = 0 and opt = default_opt and buf = table_short
                and num = 2 and D' = sample_decoders and buf' = table_short and len' = 23
                and num' = 2 and ver' = "0x0208" and flags' = 0]
  have q: "quiet quiet_opt" unfolding quiet_opt_def by (rule quiet_set)
  have "?r = (second_pass sample_decoders (first_pass default_opt table_short 23 2 0 0)
                23 2 0x0208 0 (walk_start table_short))
             \<lparr>out_w := out_w (second_pass sample_decoders
                                 (first_pass default_opt table_short 23 2 0 0)
                                 23 2 0x0208 0 (walk_start table_short))
                  @ post_walk 23 2 (second_pass sample_decoders
                                     (first_pass default_opt table_short 23 2 0 0)
                                     23 2 0x0208 0 (walk_start table_short))\<rparr>"
    by (simp add: dmi_table_decode_def Let_def walk_start_def)
  then have o: "out_w ?r = [Pr_handle hdr_array, Decoded decoded_array, Printf_invalid_length 2]"
    by (simp add: run_short post_walk_quiet q)
  have a: "length_h (to_dmi_header (buf_w ?s) (data_w ?s)) < 4 \<and> \<not> quiet (opt_w ?s)"
    by (simp add: sample_headers hdr_bad_def default_opt_fields)
  from t [THEN conjunct1] a
  have "decode_step sample_decoders None 23 0x0208 0 ?s =
        Break (?s\<lparr>out_w := out_w ?s @ [Printf_invalid_length
                       (unat (length_h (to_dmi_header (buf_w ?s) (data_w ?s))))],
                  opt_w := (opt_w ?s)\<lparr>flags_o := flags_o (opt_w ?s) OR FLAG_QUIET\<rparr>\<rparr>)
      \<and> quiet ((opt_w ?s)\<lparr>flags_o := flags_o (opt_w ?s) OR FLAG_QUIET\<rparr>)"
    by (rule mp)
  then have d: "decode_step sample_decoders None 23 0x0208 0 ?s
     = Break \<lparr>i_w = 1, data_w = 17, buf_w = table_short, opt_w = quiet_opt,
              out_w = [Pr_handle hdr_array, Decoded decoded_array, Printf_invalid_length 2]\<rparr>"
    by (simp add: sample_headers hdr_bad_def quiet_opt_def)
  have n: "filter is_invalid_length (out_w ?r) \<noteq> []" by (simp add: o)
  from t have "filter is_invalid_length (out_w ?r) \<noteq> [] \<longrightarrow>
      quiet (opt_w ?r) \<and> filter is_mismatch (out_w ?r) = []"
    by (elim conjE)
  with n have "quiet (opt_w ?r) \<and> filter is_mismatch (out_w ?r) = []"
    by (rule rev_mp)
  with o d show ?thesis by (intro conjI) simp_all
qed

end
